theory Spec2Isabelle
  imports Main "HOL-Library.AList"
begin

section \<open>Python values and exceptions\<close>

text \<open>
  The exceptions the modelled functions can raise. A function that may raise returns
  \<open>error + 'a\<close>, with \<open>Inl\<close> for the exception.
\<close>

datatype error = KeyError | ValueError

text \<open>
  A Python \<open>str\<close> that carries a message is a list of code points (\<open>nat\<close>), since a
  code point may exceed one byte. A Python \<open>str\<close> that carries bits is a \<open>string\<close>
  over the characters \<open>0\<close> and \<open>1\<close>.
\<close>

type_synonym pystr = "nat list"

section \<open>Bit stuffing (src/Bit_stuffing.py)\<close>

definition FLAG_BITS :: string where
  "FLAG_BITS = ''01111110''"

definition bit_char :: "nat \<Rightarrow> char" where
  "bit_char d = (if d = 0 then CHR ''0'' else CHR ''1'')"

text \<open>\<open>format(n, 'b')\<close>: the binary digits of \<open>n\<close>, most significant first.\<close>

fun bin_digits :: "nat \<Rightarrow> string" where
  "bin_digits n = (if n < 2 then [bit_char n] else bin_digits (n div 2) @ [bit_char (n mod 2)])"

declare bin_digits.simps [simp del]

text \<open>\<open>f'{n:08b}'\<close>: zero padded to a width of at least 8.\<close>

definition fmt08b :: "nat \<Rightarrow> string" where
  "fmt08b n = replicate (8 - length (bin_digits n)) CHR ''0'' @ bin_digits n"

definition to_bits :: "pystr \<Rightarrow> string" where
  "to_bits s = concat (map fmt08b s)"

text \<open>
  \<open>int(byte, 2)\<close> on a string of binary digits. A string with another character is
  reported as \<open>ValueError\<close> (Python's \<open>int\<close> also accepts a sign, underscores and
  surrounding blanks; no such string is ever produced from a frame of bits).
\<close>

fun int2_acc :: "nat \<Rightarrow> string \<Rightarrow> error + nat" where
  "int2_acc acc [] = Inr acc"
| "int2_acc acc (c # cs) =
     (if c = CHR ''0'' then int2_acc (2 * acc) cs
      else if c = CHR ''1'' then int2_acc (2 * acc + 1) cs
      else Inl ValueError)"

definition int2 :: "string \<Rightarrow> error + nat" where
  "int2 b = (if b = [] then Inl ValueError else int2_acc 0 b)"

text \<open>\<open>chr(n)\<close> raises \<open>ValueError\<close> outside the range of code points.\<close>

definition chr :: "nat \<Rightarrow> error + nat" where
  "chr n = (if n < 1114112 then Inr n else Inl ValueError)"

text \<open>\<open>[b[i:i+8] for i in range(0, len(b), 8)]\<close>\<close>

fun chunks8 :: "string \<Rightarrow> string list" where
  "chunks8 [] = []"
| "chunks8 (c # cs) = take 8 (c # cs) # chunks8 (drop 8 (c # cs))"

fun decode_chunks :: "string list \<Rightarrow> error + pystr" where
  "decode_chunks [] = Inr []"
| "decode_chunks (byte # rest) =
     (case int2 byte of
        Inl e \<Rightarrow> Inl e
      | Inr n \<Rightarrow>
          (case chr n of
             Inl e \<Rightarrow> Inl e
           | Inr c \<Rightarrow> (case decode_chunks rest of Inl e \<Rightarrow> Inl e | Inr s \<Rightarrow> Inr (c # s))))"

definition from_bits :: "string \<Rightarrow> error + pystr" where
  "from_bits b =
     (if length b mod 8 \<noteq> 0 then Inl ValueError else decode_chunks (chunks8 b))"

text \<open>
  The sender's loop over the bits, with \<open>count_ones\<close> as second argument; the result
  is the list \<open>stuffed_bits\<close>.
\<close>

fun stuff_loop :: "string \<Rightarrow> nat \<Rightarrow> string" where
  "stuff_loop [] count_ones = []"
| "stuff_loop (b # bits) count_ones =
     (if b = CHR ''1'' then
        (if count_ones + 1 = 5 then b # CHR ''0'' # stuff_loop bits 0
         else b # stuff_loop bits (count_ones + 1))
      else b # stuff_loop bits 0)"

definition bit_stuff :: "pystr \<Rightarrow> string" where
  "bit_stuff data_str = FLAG_BITS @ stuff_loop (to_bits data_str) 0 @ FLAG_BITS"

text \<open>
  The receiver's \<open>while i < len(inner)\<close> loop: the first argument is \<open>inner[i:]\<close>, and
  skipping the stuffed bit (\<open>i += 1\<close> twice) drops one more element, if there is one.
\<close>

fun unstuff_loop :: "string \<Rightarrow> nat \<Rightarrow> string" where
  "unstuff_loop [] count_ones = []"
| "unstuff_loop (b # inner) count_ones =
     (if b = CHR ''1'' then
        (if count_ones + 1 = 5 then b # unstuff_loop (drop 1 inner) 0
         else b # unstuff_loop inner (count_ones + 1))
      else b # unstuff_loop inner 0)"

definition startswith :: "string \<Rightarrow> string \<Rightarrow> bool" where
  "startswith s p = (take (length p) s = p)"

definition endswith :: "string \<Rightarrow> string \<Rightarrow> bool" where
  "endswith s p = (length p \<le> length s \<and> drop (length s - length p) s = p)"

text \<open>
  \<open>frame_bits[8:-8]\<close>: the slice from index 8 to index \<open>len - 8\<close>, empty when the
  frame is shorter than 16.
\<close>

definition bit_unstuff :: "string \<Rightarrow> error + pystr" where
  "bit_unstuff frame_bits =
     (if \<not> (startswith frame_bits FLAG_BITS \<and> endswith frame_bits FLAG_BITS)
      then Inl ValueError
      else from_bits
             (unstuff_loop
                (drop (length FLAG_BITS) (take (length frame_bits - length FLAG_BITS) frame_bits))
                0))"

section \<open>The helper send_vector (src/DVA.py)\<close>

text \<open>
  \<open>dist_from\<close> is iterated with \<open>items()\<close>, so it is an association list in insertion
  order (a Python dict has distinct keys); \<open>vec[dest] = cost\<close> is \<open>AList.update\<close>.
  Both branches of the source store the same value.
\<close>

definition send_vector ::
  "'a \<Rightarrow> 'a \<Rightarrow> ('a \<times> int) list \<Rightarrow> bool \<Rightarrow> ('a \<times> int) list" where
  "send_vector from_node to_node dist_from use_poisoned_reverse =
     fold (\<lambda>(dest, cost) vec.
             if use_poisoned_reverse then AList.update dest cost vec
             else AList.update dest cost vec)
          dist_from []"

section \<open>The distance-vector simulator (src/DVA.py)\<close>

text \<open>The constant \<open>INF = 10**9\<close> of the source (the name is taken in HOL).\<close>

definition INF_cost :: int where
  "INF_cost = 10 ^ 9"

text \<open>
  \<open>neighbors[u]\<close> is iterated with \<open>items()\<close>: an association list in insertion
  order. The tables \<open>dist\<close> and \<open>next_hop\<close> are only read and written by key: maps of
  maps. A next hop is a node or Python's \<open>None\<close>.
\<close>

type_synonym 'a neighbors = "'a \<rightharpoonup> ('a \<times> int) list"

type_synonym 'a dist_tab = "'a \<rightharpoonup> ('a \<rightharpoonup> int)"

type_synonym 'a hop_tab = "'a \<rightharpoonup> ('a \<rightharpoonup> 'a option)"

text \<open>Sequencing of computations that may raise.\<close>

definition and_then :: "error + 'a \<Rightarrow> ('a \<Rightarrow> error + 'b) \<Rightarrow> error + 'b" where
  "and_then m f = (case m of Inl e \<Rightarrow> Inl e | Inr x \<Rightarrow> f x)"

text \<open>A \<open>for\<close> loop over a list whose body may raise; the loop state is threaded.\<close>

fun for_each :: "'b list \<Rightarrow> ('b \<Rightarrow> 's \<Rightarrow> error + 's) \<Rightarrow> 's \<Rightarrow> error + 's" where
  "for_each [] body s = Inr s"
| "for_each (x # xs) body s = and_then (body x s) (for_each xs body)"

text \<open>\<open>m[k]\<close>, \<open>m[u][d]\<close> and \<open>m[u][d] = x\<close>; a missing key raises \<open>KeyError\<close>.\<close>

definition getitem :: "('k \<rightharpoonup> 'v) \<Rightarrow> 'k \<Rightarrow> error + 'v" where
  "getitem m k = (case m k of None \<Rightarrow> Inl KeyError | Some v \<Rightarrow> Inr v)"

definition getitem2 :: "('k \<rightharpoonup> ('j \<rightharpoonup> 'v)) \<Rightarrow> 'k \<Rightarrow> 'j \<Rightarrow> error + 'v" where
  "getitem2 m u d = and_then (getitem m u) (\<lambda>row. getitem row d)"

definition setitem2 ::
  "('k \<rightharpoonup> ('j \<rightharpoonup> 'v)) \<Rightarrow> 'k \<Rightarrow> 'j \<Rightarrow> 'v \<Rightarrow> error + ('k \<rightharpoonup> ('j \<rightharpoonup> 'v))" where
  "setitem2 m u d x = and_then (getitem m u) (\<lambda>row. Inr (m(u \<mapsto> row(d \<mapsto> x))))"

subsection \<open>init_tables\<close>

text \<open>The body of \<open>for u, v, c in edges\<close>.\<close>

definition add_link :: "'a \<times> 'a \<times> int \<Rightarrow> 'a neighbors \<Rightarrow> error + 'a neighbors" where
  "add_link e neighbors =
     (case e of (u, v, c) \<Rightarrow>
        and_then (getitem neighbors u) (\<lambda>row_u.
          let n1 = neighbors(u \<mapsto> AList.update v c row_u) in
          and_then (getitem n1 v) (\<lambda>row_v.
            Inr (n1(v \<mapsto> AList.update u c row_v)))))"

text \<open>The body of \<open>for v, c in neighbors[u].items()\<close> in init_tables.\<close>

definition init_link ::
  "'a \<Rightarrow> 'a \<times> int \<Rightarrow> 'a dist_tab \<times> 'a hop_tab \<Rightarrow> error + 'a dist_tab \<times> 'a hop_tab" where
  "init_link u p tabs =
     (case (p, tabs) of ((v, c), (dist, next_hop)) \<Rightarrow>
        and_then (setitem2 dist u v c) (\<lambda>dist'.
          and_then (setitem2 next_hop u v (Some v)) (\<lambda>next_hop'.
            Inr (dist', next_hop'))))"

text \<open>The body of \<open>for u in nodes\<close> in init_tables.\<close>

definition init_node ::
  "'a neighbors \<Rightarrow> 'a \<Rightarrow> 'a dist_tab \<times> 'a hop_tab \<Rightarrow> error + 'a dist_tab \<times> 'a hop_tab" where
  "init_node neighbors u tabs =
     (case tabs of (dist, next_hop) \<Rightarrow>
        and_then (setitem2 dist u u 0) (\<lambda>dist'.
          and_then (setitem2 next_hop u u (Some u)) (\<lambda>next_hop'.
            and_then (getitem neighbors u) (\<lambda>row.
              for_each row (init_link u) (dist', next_hop')))))"

definition init_tables ::
  "'a list \<Rightarrow> ('a \<times> 'a \<times> int) list \<Rightarrow>
   error + 'a neighbors \<times> 'a dist_tab \<times> 'a hop_tab" where
  "init_tables nodes edges =
     and_then
       (for_each edges add_link (\<lambda>u. if u \<in> set nodes then Some [] else None))
       (\<lambda>neighbors.
          and_then
            (for_each nodes (init_node neighbors)
               (\<lambda>u. if u \<in> set nodes
                     then Some (\<lambda>d. if d \<in> set nodes then Some INF_cost else None) else None,
                \<lambda>u. if u \<in> set nodes
                     then Some (\<lambda>d. if d \<in> set nodes then Some None else None) else None))
            (\<lambda>(dist, next_hop). Inr (neighbors, dist, next_hop)))"

subsection \<open>One round\<close>

text \<open>
  The body of the first \<open>for dest in nodes\<close>: the cost \<open>v\<close> advertises to \<open>u\<close> for
  \<open>dest\<close>. Python's \<open>and\<close> reads \<open>old_next\<close> only when the flag is set.
\<close>

definition advertise_dest ::
  "bool \<Rightarrow> 'a dist_tab \<Rightarrow> 'a hop_tab \<Rightarrow> 'a \<Rightarrow> 'a \<Rightarrow> 'a \<Rightarrow> ('a \<rightharpoonup> int) \<Rightarrow>
   error + ('a \<rightharpoonup> int)" where
  "advertise_dest use_poisoned_reverse old_dist old_next v u dest advertised =
     and_then (getitem2 old_dist v dest) (\<lambda>adv_cost.
       if use_poisoned_reverse then
         and_then (getitem2 old_next v dest) (\<lambda>hop.
           Inr (advertised(dest \<mapsto> (if hop = Some u then INF_cost else adv_cost))))
       else Inr (advertised(dest \<mapsto> adv_cost)))"

definition advertise ::
  "bool \<Rightarrow> 'a list \<Rightarrow> 'a dist_tab \<Rightarrow> 'a hop_tab \<Rightarrow> 'a \<Rightarrow> 'a \<Rightarrow> error + ('a \<rightharpoonup> int)" where
  "advertise use_poisoned_reverse nodes old_dist old_next v u =
     for_each nodes (advertise_dest use_poisoned_reverse old_dist old_next v u) Map.empty"

text \<open>The candidate cost \<open>via_v = cost_uv + advertised[dest]\<close>, on Python's integers.\<close>

definition via_v :: "int \<Rightarrow> int \<Rightarrow> int" where
  "via_v cost_uv adv_cost = cost_uv + adv_cost"

text \<open>
  The body of the second \<open>for dest in nodes\<close>: \<open>u\<close> updates its entry for \<open>dest\<close> from
  the vector received from \<open>v\<close>. The loop state is \<open>(dist, next_hop, updated)\<close>.
\<close>

definition relax ::
  "'a dist_tab \<Rightarrow> 'a \<Rightarrow> 'a \<Rightarrow> int \<Rightarrow> ('a \<rightharpoonup> int) \<Rightarrow> 'a \<Rightarrow>
   'a dist_tab \<times> 'a hop_tab \<times> bool \<Rightarrow> error + 'a dist_tab \<times> 'a hop_tab \<times> bool" where
  "relax old_dist u v cost_uv advertised dest st =
     (case st of (dist, next_hop, updated) \<Rightarrow>
        and_then (getitem2 old_dist u v) (\<lambda>old_uv.
          if old_uv \<ge> INF_cost then Inr (dist, next_hop, updated)
          else
            and_then (getitem advertised dest) (\<lambda>adv_cost.
              and_then (getitem2 dist u dest) (\<lambda>cur.
                if via_v cost_uv adv_cost < cur then
                  and_then (setitem2 dist u dest (via_v cost_uv adv_cost)) (\<lambda>dist'.
                    and_then (setitem2 next_hop u dest (Some v)) (\<lambda>next_hop'.
                      Inr (dist', next_hop', True)))
                else Inr (dist, next_hop, updated)))))"

text \<open>The body of \<open>for v, cost_uv in neighbors[u].items()\<close>.\<close>

definition receive ::
  "bool \<Rightarrow> 'a list \<Rightarrow> 'a dist_tab \<Rightarrow> 'a hop_tab \<Rightarrow> 'a \<Rightarrow> 'a \<times> int \<Rightarrow>
   'a dist_tab \<times> 'a hop_tab \<times> bool \<Rightarrow> error + 'a dist_tab \<times> 'a hop_tab \<times> bool" where
  "receive use_poisoned_reverse nodes old_dist old_next u p st =
     (case p of (v, cost_uv) \<Rightarrow>
        and_then (advertise use_poisoned_reverse nodes old_dist old_next v u) (\<lambda>advertised.
          for_each nodes (relax old_dist u v cost_uv advertised) st))"

text \<open>The body of \<open>for u in nodes\<close> in the round.\<close>

definition node_round ::
  "bool \<Rightarrow> 'a list \<Rightarrow> 'a neighbors \<Rightarrow> 'a dist_tab \<Rightarrow> 'a hop_tab \<Rightarrow> 'a \<Rightarrow>
   'a dist_tab \<times> 'a hop_tab \<times> bool \<Rightarrow> error + 'a dist_tab \<times> 'a hop_tab \<times> bool" where
  "node_round use_poisoned_reverse nodes neighbors old_dist old_next u st =
     and_then (getitem neighbors u) (\<lambda>row.
       for_each row (receive use_poisoned_reverse nodes old_dist old_next u) st)"

text \<open>
  One pass of the \<open>while\<close> body up to the tests on \<open>updated\<close>: the snapshots
  \<open>old_dist\<close> and \<open>old_next\<close> are the tables at the start of the round.
\<close>

definition round ::
  "bool \<Rightarrow> 'a list \<Rightarrow> 'a neighbors \<Rightarrow> 'a dist_tab \<times> 'a hop_tab \<Rightarrow>
   error + 'a dist_tab \<times> 'a hop_tab \<times> bool" where
  "round use_poisoned_reverse nodes neighbors tabs =
     (case tabs of (dist, next_hop) \<Rightarrow>
        for_each nodes (node_round use_poisoned_reverse nodes neighbors dist next_hop)
          (dist, next_hop, False))"

subsection \<open>The loop and distance_vector\<close>

text \<open>
  The two \<open>break\<close>s of the loop. The source names neither and returns neither; the
  loop of the model reports which one was taken, and the value of \<open>iteration\<close>.
\<close>

datatype outcome = Converged | AbortedOnIterationLimit

function dv_loop ::
  "bool \<Rightarrow> 'a list \<Rightarrow> 'a neighbors \<Rightarrow> nat \<Rightarrow> 'a dist_tab \<times> 'a hop_tab \<Rightarrow>
   error + ('a dist_tab \<times> 'a hop_tab) \<times> nat \<times> outcome" where
  "dv_loop use_poisoned_reverse nodes neighbors iteration tabs =
     (case round use_poisoned_reverse nodes neighbors tabs of
        Inl e \<Rightarrow> Inl e
      | Inr (dist, next_hop, updated) \<Rightarrow>
          if \<not> updated then Inr ((dist, next_hop), iteration + 1, Converged)
          else if iteration + 1 > 50
          then Inr ((dist, next_hop), iteration + 1, AbortedOnIterationLimit)
          else dv_loop use_poisoned_reverse nodes neighbors (iteration + 1) (dist, next_hop))"
  by pat_completeness auto

termination
  by (relation "measure (\<lambda>(p, ns, nb, iteration, tabs). 51 - iteration)") auto

declare dv_loop.simps [simp del]

text \<open>
  \<open>distance_vector\<close> returns \<open>dist, next_hop\<close>; \<open>verbose\<close> only prints and is left out.
\<close>

definition distance_vector ::
  "'a list \<Rightarrow> ('a \<times> 'a \<times> int) list \<Rightarrow> bool \<Rightarrow> error + 'a dist_tab \<times> 'a hop_tab" where
  "distance_vector nodes edges use_poisoned_reverse =
     and_then (init_tables nodes edges) (\<lambda>(neighbors, dist, next_hop).
       and_then (dv_loop use_poisoned_reverse nodes neighbors 0 (dist, next_hop))
         (\<lambda>(tabs, iteration, oc). Inr tabs))"

text \<open>
  The run behind \<open>distance_vector\<close>, with what the loop knows when it stops: the
  tables, the value of \<open>iteration\<close> and the exit taken.
\<close>

definition simulate ::
  "'a list \<Rightarrow> ('a \<times> 'a \<times> int) list \<Rightarrow> bool \<Rightarrow>
   error + ('a dist_tab \<times> 'a hop_tab) \<times> nat \<times> outcome" where
  "simulate nodes edges use_poisoned_reverse =
     and_then (init_tables nodes edges)
       (\<lambda>(neighbors, tabs). dv_loop use_poisoned_reverse nodes neighbors 0 tabs)"

text \<open>The tables after \<open>k\<close> more rounds, whatever the rounds report.\<close>

fun rounds ::
  "bool \<Rightarrow> 'a list \<Rightarrow> 'a neighbors \<Rightarrow> nat \<Rightarrow> 'a dist_tab \<times> 'a hop_tab \<Rightarrow>
   error + 'a dist_tab \<times> 'a hop_tab" where
  "rounds p nodes neighbors 0 tabs = Inr tabs"
| "rounds p nodes neighbors (Suc k) tabs =
     and_then (round p nodes neighbors tabs)
       (\<lambda>(dist, next_hop, updated). rounds p nodes neighbors k (dist, next_hop))"

section \<open>Abstractions used in the proofs\<close>

text \<open>
  After init_tables, \<open>dist\<close> and \<open>next_hop\<close> have one row for every node of the list
  and one entry for every node in each row, and no other key. \<open>tab S f\<close> is the table
  over the node set \<open>S\<close> whose entry for \<open>(u, d)\<close> is \<open>f u d\<close>; \<open>put\<close> changes one
  entry of \<open>f\<close>. In the same way \<open>rows S r\<close> is the dict of neighbor rows over \<open>S\<close>.
\<close>

definition tab :: "'a set \<Rightarrow> ('a \<Rightarrow> 'a \<Rightarrow> 'v) \<Rightarrow> ('a \<rightharpoonup> ('a \<rightharpoonup> 'v))" where
  "tab S f = (\<lambda>u. if u \<in> S then Some (\<lambda>d. if d \<in> S then Some (f u d) else None) else None)"

definition put :: "('a \<Rightarrow> 'a \<Rightarrow> 'v) \<Rightarrow> 'a \<Rightarrow> 'a \<Rightarrow> 'v \<Rightarrow> ('a \<Rightarrow> 'a \<Rightarrow> 'v)" where
  "put f u x val = f(u := (f u)(x := val))"

definition rows :: "'a set \<Rightarrow> ('a \<Rightarrow> ('a \<times> int) list) \<Rightarrow> 'a neighbors" where
  "rows S r = (\<lambda>u. if u \<in> S then Some (r u) else None)"

text \<open>
  What add_link does to the rows when both ends of the link are nodes, and the
  neighbors that init_tables builds from an edge list all of whose ends are nodes.
\<close>

definition link :: "'a \<times> 'a \<times> int \<Rightarrow> ('a \<Rightarrow> ('a \<times> int) list) \<Rightarrow> ('a \<Rightarrow> ('a \<times> int) list)" where
  "link e r =
     (case e of (u, v, c) \<Rightarrow>
        (r(u := AList.update v c (r u)))
          (v := AList.update u c ((r(u := AList.update v c (r u))) v)))"

definition nrow :: "'a neighbors \<Rightarrow> 'a \<Rightarrow> ('a \<times> int) list" where
  "nrow nb a = (case nb a of Some row \<Rightarrow> row | None \<Rightarrow> [])"

definition nb_ok :: "'a set \<Rightarrow> 'a neighbors \<Rightarrow> bool" where
  "nb_ok S nb = (\<forall>u \<in> S. \<exists>row. nb u = Some row \<and> fst ` set row \<subseteq> S)"

definition endpoints_ok :: "'a set \<Rightarrow> ('a \<times> 'a \<times> int) list \<Rightarrow> bool" where
  "endpoints_ok S edges = (\<forall>e \<in> set edges. fst e \<in> S \<and> fst (snd e) \<in> S)"

definition nb_of :: "'a set \<Rightarrow> ('a \<times> 'a \<times> int) list \<Rightarrow> 'a neighbors" where
  "nb_of S edges = rows S (fold link edges (\<lambda>u. []))"

text \<open>
  One round, entry by entry. \<open>adv_cost\<close> is the cost \<open>v\<close> advertises to \<open>u\<close>;
  \<open>improve\<close> is what hearing neighbor \<open>v\<close> over a link of cost \<open>c\<close> does to the entry
  \<open>(cost, next hop)\<close> of \<open>u\<close> for \<open>dest\<close>; \<open>best\<close> hears the neighbors of a row in
  order. \<open>new_dist\<close>, \<open>new_hop\<close> and \<open>changed\<close> are the tables and the flag a round
  computes from the snapshot \<open>(f, g)\<close>, and \<open>ptabs\<close> iterates the round.
\<close>

definition adv_cost ::
  "bool \<Rightarrow> ('a \<Rightarrow> 'a \<Rightarrow> int) \<Rightarrow> ('a \<Rightarrow> 'a \<Rightarrow> 'a option) \<Rightarrow> 'a \<Rightarrow> 'a \<Rightarrow> 'a \<Rightarrow> int" where
  "adv_cost p fo go v u dest = (if p \<and> go v dest = Some u then INF_cost else fo v dest)"

definition improve ::
  "bool \<Rightarrow> ('a \<Rightarrow> 'a \<Rightarrow> int) \<Rightarrow> ('a \<Rightarrow> 'a \<Rightarrow> 'a option) \<Rightarrow> 'a \<Rightarrow> 'a \<Rightarrow> 'a \<times> int \<Rightarrow>
   int \<times> 'a option \<Rightarrow> int \<times> 'a option" where
  "improve p fo go u dest vc e =
     (if fo u (fst vc) \<ge> INF_cost then e
      else if via_v (snd vc) (adv_cost p fo go (fst vc) u dest) < fst e
      then (via_v (snd vc) (adv_cost p fo go (fst vc) u dest), Some (fst vc))
      else e)"

definition best ::
  "bool \<Rightarrow> ('a \<Rightarrow> 'a \<Rightarrow> int) \<Rightarrow> ('a \<Rightarrow> 'a \<Rightarrow> 'a option) \<Rightarrow> ('a \<times> int) list \<Rightarrow> 'a \<Rightarrow> 'a \<Rightarrow>
   int \<times> 'a option \<Rightarrow> int \<times> 'a option" where
  "best p fo go row u dest e = fold (improve p fo go u dest) row e"

definition new_dist ::
  "bool \<Rightarrow> 'a neighbors \<Rightarrow> ('a \<Rightarrow> 'a \<Rightarrow> int) \<Rightarrow> ('a \<Rightarrow> 'a \<Rightarrow> 'a option) \<Rightarrow> 'a \<Rightarrow> 'a \<Rightarrow> int" where
  "new_dist p nb f g a y = fst (best p f g (nrow nb a) a y (f a y, g a y))"

definition new_hop ::
  "bool \<Rightarrow> 'a neighbors \<Rightarrow> ('a \<Rightarrow> 'a \<Rightarrow> int) \<Rightarrow> ('a \<Rightarrow> 'a \<Rightarrow> 'a option) \<Rightarrow> 'a \<Rightarrow> 'a \<Rightarrow> 'a option" where
  "new_hop p nb f g a y = snd (best p f g (nrow nb a) a y (f a y, g a y))"

definition changed ::
  "bool \<Rightarrow> 'a set \<Rightarrow> 'a neighbors \<Rightarrow> ('a \<Rightarrow> 'a \<Rightarrow> int) \<Rightarrow> ('a \<Rightarrow> 'a \<Rightarrow> 'a option) \<Rightarrow> bool" where
  "changed p S nb f g = (\<exists>a \<in> S. \<exists>y \<in> S. new_dist p nb f g a y < f a y)"

fun ptabs ::
  "bool \<Rightarrow> 'a neighbors \<Rightarrow> nat \<Rightarrow> ('a \<Rightarrow> 'a \<Rightarrow> int) \<times> ('a \<Rightarrow> 'a \<Rightarrow> 'a option) \<Rightarrow>
   ('a \<Rightarrow> 'a \<Rightarrow> int) \<times> ('a \<Rightarrow> 'a \<Rightarrow> 'a option)" where
  "ptabs p nb 0 fg = fg"
| "ptabs p nb (Suc k) fg = ptabs p nb k (new_dist p nb (fst fg) (snd fg), new_hop p nb (fst fg) (snd fg))"

text \<open>
  The initialization, entry by entry: \<open>init_entry\<close> is what the links of a row do to
  the entry for \<open>y\<close>, \<open>init_row\<close> what the body of the loop over the nodes does, and
  \<open>dist0\<close> and \<open>hop0\<close> are the tables init_tables returns.
\<close>

definition init_entry :: "('a \<times> int) list \<Rightarrow> 'a \<Rightarrow> int \<times> 'a option \<Rightarrow> int \<times> 'a option" where
  "init_entry row y e = fold (\<lambda>vc e'. if fst vc = y then (snd vc, Some (fst vc)) else e') row e"

definition init_row ::
  "'a neighbors \<Rightarrow> 'a \<Rightarrow> 'a \<Rightarrow> int \<times> 'a option \<Rightarrow> int \<times> 'a option" where
  "init_row nb a y e = init_entry (nrow nb a) y (if y = a then (0, Some a) else e)"

definition dist0 :: "'a neighbors \<Rightarrow> 'a \<Rightarrow> 'a \<Rightarrow> int" where
  "dist0 nb a y = fst (init_row nb a y (INF_cost, None))"

definition hop0 :: "'a neighbors \<Rightarrow> 'a \<Rightarrow> 'a \<Rightarrow> 'a option" where
  "hop0 nb a y = snd (init_row nb a y (INF_cost, None))"

text \<open>
  What the loop has done when it returns \<open>res\<close>, started with the counter at \<open>it\<close>:
  it has raised in some round, or it has run \<open>k + 1\<close> rounds, of which the first
  \<open>k\<close> changed a table.
\<close>

definition loop_spec ::
  "bool \<Rightarrow> 'a list \<Rightarrow> 'a neighbors \<Rightarrow> nat \<Rightarrow> 'a dist_tab \<times> 'a hop_tab \<Rightarrow>
   error + ('a dist_tab \<times> 'a hop_tab) \<times> nat \<times> outcome \<Rightarrow> bool" where
  "loop_spec p ns nb it tabs res =
     (case res of
        Inl e \<Rightarrow> \<exists>k t. it + k \<le> 50 \<and> rounds p ns nb k tabs = Inr t \<and> round p ns nb t = Inl e
      | Inr (tabs', n', oc) \<Rightarrow>
          \<exists>k t upd. n' = it + Suc k \<and> n' \<le> 51 \<and> rounds p ns nb k tabs = Inr t \<and>
            round p ns nb t = Inr (fst tabs', snd tabs', upd) \<and>
            (oc = Converged \<longleftrightarrow> \<not> upd) \<and> (oc = AbortedOnIterationLimit \<longrightarrow> n' = 51) \<and>
            (\<forall>j < k. \<exists>t' d h. rounds p ns nb j tabs = Inr t' \<and>
                round p ns nb t' = Inr (d, h, True)))"

text \<open>
  Links that join two different nodes at a cost that is not negative, and the
  invariant they give: no cost in the tables is negative, and every node reaches
  itself at cost 0 through itself.
\<close>

definition links_ok :: "('a \<times> 'a \<times> int) list \<Rightarrow> bool" where
  "links_ok edges = (\<forall>e \<in> set edges. fst e \<noteq> fst (snd e) \<and> 0 \<le> snd (snd e))"

definition self_routes :: "'a set \<Rightarrow> ('a \<Rightarrow> 'a \<Rightarrow> int) \<times> ('a \<Rightarrow> 'a \<Rightarrow> 'a option) \<Rightarrow> bool" where
  "self_routes S fg =
     ((\<forall>a \<in> S. \<forall>y \<in> S. 0 \<le> fst fg a y) \<and> (\<forall>a \<in> S. fst fg a a = 0 \<and> snd fg a a = Some a))"





section \<open>Properties of bit stuffing\<close>

lemma unstuff_stuff_loop: "unstuff_loop (stuff_loop bits n) n = bits"
  by (induction bits arbitrary: n) auto

lemma length_bin_digits: "n < 2 ^ k \<Longrightarrow> 0 < k \<Longrightarrow> length (bin_digits n) \<le> k"
proof (induction n arbitrary: k rule: bin_digits.induct)
  case (1 n)
  show ?case
  proof (cases "n < 2")
    case True
    with 1(3) show ?thesis by (simp add: bin_digits.simps [of n])
  next
    case False
    have "k \<noteq> Suc 0" using False 1(2) by auto
    with 1(3) obtain j where k: "k = Suc j" and j: "0 < j"
      by (cases k) auto
    have "n div 2 < 2 ^ j" using 1(2) k by auto
    with 1(1) [of j] False j have "length (bin_digits (n div 2)) \<le> j" by simp
    with False k show ?thesis by (simp add: bin_digits.simps [of n])
  qed
qed

lemma int2_acc_append:
  "int2_acc acc (xs @ [bit_char d]) =
     (case int2_acc acc xs of Inl e \<Rightarrow> Inl e | Inr m \<Rightarrow> Inr (2 * m + (if d = 0 then 0 else 1)))"
  by (induction xs arbitrary: acc) (auto simp: bit_char_def)

lemma int2_acc_bin_digits: "int2_acc 0 (bin_digits n) = Inr n"
proof (induction n rule: bin_digits.induct)
  case (1 n)
  show ?case
  proof (cases "n < 2")
    case True
    then have "n = 0 \<or> n = 1" by auto
    then show ?thesis by (auto simp: bin_digits.simps [of n] bit_char_def)
  next
    case False
    with 1 have "int2_acc 0 (bin_digits (n div 2)) = Inr (n div 2)" by simp
    with False show ?thesis
      by (simp add: bin_digits.simps [of n] int2_acc_append) presburger
  qed
qed

lemma int2_acc_zeros: "int2_acc 0 (replicate k CHR ''0'' @ xs) = int2_acc 0 xs"
  by (induction k) auto

lemma bin_digits_nonempty: "bin_digits n \<noteq> []"
  by (simp add: bin_digits.simps [of n])

lemma int2_fmt08b: "int2 (fmt08b n) = Inr n"
  by (simp add: int2_def fmt08b_def int2_acc_zeros int2_acc_bin_digits bin_digits_nonempty)

lemma length_fmt08b: "n < 256 \<Longrightarrow> length (fmt08b n) = 8"
  using length_bin_digits [of n 8] by (simp add: fmt08b_def)

lemma chunks8_append:
  "length x = 8 \<Longrightarrow> chunks8 (x @ ys) = x # chunks8 ys"
  by (cases x) auto

lemma length_to_bits: "\<forall>c \<in> set s. c < 256 \<Longrightarrow> length (to_bits s) = 8 * length s"
  by (induction s) (auto simp: to_bits_def length_fmt08b)

lemma decode_to_bits:
  "\<forall>c \<in> set s. c < 256 \<Longrightarrow> decode_chunks (chunks8 (to_bits s)) = Inr s"
proof (induction s)
  case Nil
  then show ?case by (simp add: to_bits_def)
next
  case (Cons c s)
  then have c: "c < 256" and ih: "decode_chunks (chunks8 (to_bits s)) = Inr s"
    by auto
  have "to_bits (c # s) = fmt08b c @ to_bits s" by (simp add: to_bits_def)
  then have "chunks8 (to_bits (c # s)) = fmt08b c # chunks8 (to_bits s)"
    using chunks8_append [OF length_fmt08b [OF c]] by simp
  with ih c show ?case by (simp add: int2_fmt08b chr_def)
qed

lemma from_bits_to_bits: "\<forall>c \<in> set s. c < 256 \<Longrightarrow> from_bits (to_bits s) = Inr s"
  by (simp add: from_bits_def length_to_bits decode_to_bits)

text \<open>
  C10: for every message whose characters all have code points below 256, un-stuffing
  the stuffed frame returns the message itself, without raising.
\<close>

theorem bit_unstuff_bit_stuff:
  "\<forall>c \<in> set s. c < 256 \<Longrightarrow> bit_unstuff (bit_stuff s) = Inr s"
proof -
  assume s: "\<forall>c \<in> set s. c < 256"
  let ?inner = "stuff_loop (to_bits s) 0"
  have "startswith (bit_stuff s) FLAG_BITS"
    by (simp add: startswith_def bit_stuff_def)
  moreover have "endswith (bit_stuff s) FLAG_BITS"
    by (simp add: endswith_def bit_stuff_def)
  moreover have
    "drop (length FLAG_BITS) (take (length (bit_stuff s) - length FLAG_BITS) (bit_stuff s)) = ?inner"
    by (simp add: bit_stuff_def)
  ultimately have "bit_unstuff (bit_stuff s) = from_bits (unstuff_loop ?inner 0)"
    by (simp add: bit_unstuff_def)
  with s show ?thesis by (simp add: unstuff_stuff_loop from_bits_to_bits)
qed

text \<open>The message \<open>A}B\<close> of the demo: \<open>}\<close> is 0x7D, with five consecutive ones.\<close>

theorem bit_unstuff_bit_stuff_witness:
  "bit_stuff [65, 125, 66] =
     ''01111110'' @ ''0100000101111100101000010'' @ ''01111110'' \<and>
   bit_unstuff (bit_stuff [65, 125, 66]) = Inr [65, 125, 66]"
proof
  show "bit_stuff [65, 125, 66] =
     ''01111110'' @ ''0100000101111100101000010'' @ ''01111110''"
    by code_simp
  show "bit_unstuff (bit_stuff [65, 125, 66]) = Inr [65, 125, 66]"
    using bit_unstuff_bit_stuff [of "[65, 125, 66]"] by simp
qed

section \<open>Properties of send_vector\<close>

lemma update_fresh: "k \<notin> fst ` set al \<Longrightarrow> AList.update k v al = al @ [(k, v)]"
  by (induction al) auto

lemma fold_update_distinct:
  "distinct (map fst (acc @ d)) \<Longrightarrow>
   fold (\<lambda>(dest, cost) vec. AList.update dest cost vec) d acc = acc @ d"
proof (induction d arbitrary: acc)
  case Nil
  then show ?case by simp
next
  case (Cons p d)
  obtain k v where p: "p = (k, v)" by (cases p)
  from Cons.prems p have fresh: "k \<notin> fst ` set acc" by auto
  from Cons.prems p have "distinct (map fst ((acc @ [(k, v)]) @ d))" by simp
  from Cons.IH [OF this] fresh p show ?case by (simp add: update_fresh)
qed

text \<open>
  C9: send_vector returns the sender's distance map itself, whatever the
  poisoned-reverse flag: the flag has no effect, and no cost is replaced by the
  infinity sentinel.
\<close>

theorem send_vector_identity:
  "distinct (map fst dist_from) \<Longrightarrow>
   send_vector from_node to_node dist_from flag = dist_from \<and>
   send_vector from_node to_node dist_from True = send_vector from_node to_node dist_from False"
  using fold_update_distinct [of "[]" dist_from] by (simp add: send_vector_def)

theorem send_vector_identity_witness:
  "send_vector ''B'' ''A'' [(''A'', 1), (''B'', 0), (''C'', 2)] True =
     [(''A'', 1), (''B'', 0), (''C'', 2)] \<and>
   send_vector ''B'' ''A'' [(''A'', 1), (''B'', 0), (''C'', 2)] True =
   send_vector ''B'' ''A'' [(''A'', 1), (''B'', 0), (''C'', 2)] False"
proof -
  have "distinct (map fst [(''A'', 1::int), (''B'', 0), (''C'', 2)])" by simp
  from send_vector_identity [OF this, of "''B''" "''A''" True] show ?thesis .
qed

section \<open>Properties of the distance-vector simulator\<close>

subsection \<open>Sequencing and subscripts\<close>

lemma and_then_Inr [simp]: "and_then (Inr x) f = f x"
  by (simp add: and_then_def)

lemma and_then_Inl [simp]: "and_then (Inl e) f = Inl e"
  by (simp add: and_then_def)


lemma getitem_eq_Inr [simp]: "getitem m k = Inr v \<longleftrightarrow> m k = Some v"
  by (simp add: getitem_def split: option.splits)

subsection \<open>The advertised vector, on any tables\<close>



subsection \<open>The loop and its rounds\<close>

lemma rounds_add:
  "rounds p ns nb (j + k) tabs = and_then (rounds p ns nb j tabs) (rounds p ns nb k)"
proof (induction j arbitrary: tabs)
  case 0
  show ?case by simp
next
  case (Suc j)
  show ?case
    by (cases "round p ns nb tabs") (auto simp: Suc.IH)
qed

lemma loop_spec_raise:
  assumes "round p ns nb tabs = Inl e" "it \<le> 50"
  shows "loop_spec p ns nb it tabs (Inl e)"
proof -
  have "it + 0 \<le> 50 \<and> rounds p ns nb 0 tabs = Inr tabs \<and> round p ns nb tabs = Inl e"
    using assms by simp
  then show ?thesis unfolding loop_spec_def sum.case by blast
qed

lemma loop_spec_stop:
  assumes "round p ns nb tabs = Inr (d, h, upd)" "it \<le> 50" "upd \<longrightarrow> it = 50"
  shows "loop_spec p ns nb it tabs
           (Inr ((d, h), Suc it, if upd then AbortedOnIterationLimit else Converged))"
proof -
  let ?oc = "if upd then AbortedOnIterationLimit else Converged"
  have "Suc it = it + Suc 0 \<and> Suc it \<le> 51 \<and> rounds p ns nb 0 tabs = Inr tabs \<and>
        round p ns nb tabs = Inr (fst (d, h), snd (d, h), upd) \<and>
        (?oc = Converged \<longleftrightarrow> \<not> upd) \<and> (?oc = AbortedOnIterationLimit \<longrightarrow> Suc it = 51) \<and>
        (\<forall>j < (0::nat). \<exists>t' d h. rounds p ns nb j tabs = Inr t' \<and>
            round p ns nb t' = Inr (d, h, True))"
    using assms by simp
  then show ?thesis unfolding loop_spec_def sum.case prod.case by blast
qed

lemma rounds_Suc_Inr:
  "round p ns nb tabs = Inr (d, h, upd) \<Longrightarrow>
   rounds p ns nb (Suc k) tabs = rounds p ns nb k (d, h)"
  by simp

lemma loop_spec_step:
  assumes r: "round p ns nb tabs = Inr (d, h, True)"
    and rest: "loop_spec p ns nb (Suc it) (d, h) res"
  shows "loop_spec p ns nb it tabs res"
proof (cases res)
  case (Inl e)
  with rest obtain k t where k: "Suc it + k \<le> 50" "rounds p ns nb k (d, h) = Inr t"
    "round p ns nb t = Inl e"
    unfolding loop_spec_def by auto
  have "it + Suc k \<le> 50 \<and> rounds p ns nb (Suc k) tabs = Inr t \<and> round p ns nb t = Inl e"
    using k rounds_Suc_Inr [OF r] by simp
  then show ?thesis unfolding loop_spec_def Inl sum.case by blast
next
  case (Inr x)
  obtain tabs' n' oc where x: "x = (tabs', n', oc)" by (cases x)
  from rest obtain k t upd where k:
    "n' = Suc it + Suc k" "n' \<le> 51" "rounds p ns nb k (d, h) = Inr t"
    "round p ns nb t = Inr (fst tabs', snd tabs', upd)"
    "oc = Converged \<longleftrightarrow> \<not> upd" "oc = AbortedOnIterationLimit \<longrightarrow> n' = 51"
    and earlier: "\<forall>j < k. \<exists>t' d' h'. rounds p ns nb j (d, h) = Inr t' \<and>
              round p ns nb t' = Inr (d', h', True)"
    unfolding loop_spec_def Inr x sum.case prod.case by blast
  have all: "\<exists>t' d' h'. rounds p ns nb j tabs = Inr t' \<and>
              round p ns nb t' = Inr (d', h', True)" if "j < Suc k" for j
  proof (cases j)
    case 0
    then show ?thesis using r by simp
  next
    case (Suc i)
    with that have "i < k" by simp
    with earlier obtain t' d' h' where "rounds p ns nb i (d, h) = Inr t'"
      "round p ns nb t' = Inr (d', h', True)" by blast
    then show ?thesis using rounds_Suc_Inr [OF r] Suc by auto
  qed
  have "n' = it + Suc (Suc k) \<and> n' \<le> 51 \<and> rounds p ns nb (Suc k) tabs = Inr t \<and>
        round p ns nb t = Inr (fst tabs', snd tabs', upd) \<and>
        (oc = Converged \<longleftrightarrow> \<not> upd) \<and> (oc = AbortedOnIterationLimit \<longrightarrow> n' = 51) \<and>
        (\<forall>j < Suc k. \<exists>t' d h. rounds p ns nb j tabs = Inr t' \<and>
            round p ns nb t' = Inr (d, h, True))"
    using k all rounds_Suc_Inr [OF r] by simp
  then show ?thesis unfolding loop_spec_def Inr x sum.case prod.case by blast
qed

lemma dv_loop_spec:
  "n = 51 - it \<Longrightarrow> it \<le> 50 \<Longrightarrow> loop_spec p ns nb it tabs (dv_loop p ns nb it tabs)"
proof (induction n arbitrary: it tabs)
  case 0
  then show ?case by simp
next
  case (Suc n)
  show ?case
  proof (cases "round p ns nb tabs")
    case (Inl e)
    then have "dv_loop p ns nb it tabs = Inl e" by (simp add: dv_loop.simps [of p ns nb it tabs])
    with loop_spec_raise [OF Inl Suc.prems(2)] show ?thesis by simp
  next
    case (Inr r)
    obtain d h upd where r: "r = (d, h, upd)" by (cases r)
    show ?thesis
    proof (cases "upd \<and> it < 50")
      case False
      then have "dv_loop p ns nb it tabs =
         Inr ((d, h), Suc it, if upd then AbortedOnIterationLimit else Converged)"
        using Inr r Suc.prems by (auto simp: dv_loop.simps [of p ns nb it tabs])
      moreover have "upd \<longrightarrow> it = 50" using False Suc.prems by auto
      ultimately show ?thesis using loop_spec_stop [of p ns nb tabs d h upd it] Inr r Suc.prems
        by simp
    next
      case True
      then have loop: "dv_loop p ns nb it tabs = dv_loop p ns nb (Suc it) (d, h)"
        using Inr r by (simp add: dv_loop.simps [of p ns nb it tabs])
      have n: "n = 51 - Suc it" "Suc it \<le> 50" using Suc.prems True by auto
      from Suc.IH [OF n, of "(d, h)"] loop_spec_step [of p ns nb tabs d h "Suc it"] Inr r True loop
      show ?thesis using loop_spec_step [of p ns nb tabs d h it] by simp
    qed
  qed
qed

subsection \<open>Tables over a node set\<close>

lemma getitem2_tab:
  "getitem2 (tab S f) u d = (if u \<in> S \<and> d \<in> S then Inr (f u d) else Inl KeyError)"
  by (simp add: getitem2_def getitem_def tab_def)

lemma setitem2_tab:
  "u \<in> S \<Longrightarrow> d \<in> S \<Longrightarrow> setitem2 (tab S f) u d x = Inr (tab S (f(u := (f u)(d := x))))"
  by (auto simp: setitem2_def getitem_def tab_def fun_eq_iff)

lemma tab_eq_iff: "tab S f = tab S g \<longleftrightarrow> (\<forall>u\<in>S. \<forall>d\<in>S. f u d = g u d)"
proof
  assume eq: "tab S f = tab S g"
  show "\<forall>u\<in>S. \<forall>d\<in>S. f u d = g u d"
  proof (intro ballI)
    fix u d assume "u \<in> S" "d \<in> S"
    then have "getitem2 (tab S f) u d = Inr (f u d)" "getitem2 (tab S g) u d = Inr (g u d)"
      by (simp_all add: getitem2_tab)
    with eq show "f u d = g u d" by simp
  qed
next
  assume "\<forall>u\<in>S. \<forall>d\<in>S. f u d = g u d"
  then show "tab S f = tab S g" by (auto simp: tab_def fun_eq_iff)
qed

subsection \<open>Hearing the neighbors of a row\<close>

lemma improve_le: "fst (improve p fo go u dest vc e) \<le> fst e"
  by (simp add: improve_def)

lemma improve_idem: "improve p fo go u dest vc (improve p fo go u dest vc e) = improve p fo go u dest vc e"
  by (simp add: improve_def)

lemma best_le: "fst (best p fo go row u dest e) \<le> fst e"
proof (induction row arbitrary: e)
  case Nil
  then show ?case by (simp add: best_def)
next
  case (Cons vc row)
  have "fst (best p fo go row u dest (improve p fo go u dest vc e)) \<le> fst (improve p fo go u dest vc e)"
    by (rule Cons.IH)
  also have "\<dots> \<le> fst e" by (rule improve_le)
  finally show ?case by (simp add: best_def)
qed

lemma best_Cons: "best p fo go (vc # row) u dest e = best p fo go row u dest (improve p fo go u dest vc e)"
  by (simp add: best_def)

lemma best_Nil: "best p fo go [] u dest e = e"
  by (simp add: best_def)

lemma improve_fixed:
  "fst e' \<le> fst (improve p fo go u dest vc e) \<Longrightarrow> improve p fo go u dest vc e' = e'"
  by (auto simp: improve_def split: if_splits)

lemma best_fixed_all:
  "vc \<in> set row \<Longrightarrow> improve p fo go u dest vc (best p fo go row u dest e) = best p fo go row u dest e"
proof (induction row arbitrary: e)
  case Nil
  then show ?case by simp
next
  case (Cons x row)
  show ?case
  proof (cases "vc = x")
    case True
    have "fst (best p fo go row u dest (improve p fo go u dest x e))
            \<le> fst (improve p fo go u dest x (improve p fo go u dest x e))"
      using best_le [of p fo go row u dest "improve p fo go u dest x e"]
      by (simp add: improve_idem)
    then show ?thesis
      unfolding best_Cons True
      by (metis improve_fixed improve_idem)
  next
    case False
    with Cons.prems have "vc \<in> set row" by simp
    from Cons.IH [OF this] show ?thesis by (simp add: best_Cons)
  qed
qed

lemma fold_fixed: "(\<And>x. x \<in> set xs \<Longrightarrow> f x e = e) \<Longrightarrow> fold f xs e = e"
  by (induction xs) auto

lemma best_idem: "best p fo go row u dest (best p fo go row u dest e) = best p fo go row u dest e"
  unfolding best_def [of p fo go row u dest "best p fo go row u dest e"]
  by (rule fold_fixed) (rule best_fixed_all)

subsection \<open>One round on tables over the node set\<close>

lemma advertise_dest_tab:
  "v \<in> S \<Longrightarrow> x \<in> S \<Longrightarrow>
   advertise_dest p (tab S fo) (tab S go) v u x m = Inr (m(x \<mapsto> adv_cost p fo go v u x))"
  by (simp add: advertise_dest_def getitem2_tab adv_cost_def)

lemma advertise_loop_tab:
  "v \<in> S \<Longrightarrow> set ds \<subseteq> S \<Longrightarrow>
   for_each ds (advertise_dest p (tab S fo) (tab S go) v u) m =
     Inr (\<lambda>d. if d \<in> set ds then Some (adv_cost p fo go v u d) else m d)"
proof (induction ds arbitrary: m)
  case Nil
  then show ?case by simp
next
  case (Cons x ds)
  then have x: "x \<in> S" and ds: "set ds \<subseteq> S" by auto
  show ?case
    by (simp add: advertise_dest_tab [OF Cons.prems(1) x] Cons.IH [OF Cons.prems(1) ds])
       (auto simp: fun_eq_iff)
qed

lemma advertise_tab:
  "v \<in> S \<Longrightarrow> set nodes \<subseteq> S \<Longrightarrow>
   advertise p nodes (tab S fo) (tab S go) v u =
     Inr (\<lambda>d. if d \<in> set nodes then Some (adv_cost p fo go v u d) else None)"
  by (simp add: advertise_def advertise_loop_tab)

lemma put_same: "put f u x (f u x) = f"
  by (simp add: put_def)

lemma relax_tab:
  assumes "u \<in> S" "v \<in> S" "x \<in> S" "advm x = Some (adv_cost p fo go v u x)"
  shows "relax (tab S fo) u v c advm x (tab S f, tab S g, b) =
     Inr (tab S (put f u x (fst (improve p fo go u x (v, c) (f u x, g u x)))),
          tab S (put g u x (snd (improve p fo go u x (v, c) (f u x, g u x)))),
          b \<or> fst (improve p fo go u x (v, c) (f u x, g u x)) < f u x)"
  using assms
  by (simp add: relax_def getitem2_tab setitem2_tab improve_def put_same getitem_def)
     (simp add: put_def)

lemma relax_loop_tab:
  assumes "u \<in> S" "v \<in> S"
  shows "set ds \<subseteq> S \<Longrightarrow> \<forall>x \<in> set ds. advm x = Some (adv_cost p fo go v u x) \<Longrightarrow>
    for_each ds (relax (tab S fo) u v c advm) (tab S f, tab S g, b) =
     Inr (tab S (\<lambda>a y. if a = u \<and> y \<in> set ds
                        then fst (improve p fo go u y (v, c) (f u y, g u y)) else f a y),
          tab S (\<lambda>a y. if a = u \<and> y \<in> set ds
                        then snd (improve p fo go u y (v, c) (f u y, g u y)) else g a y),
          b \<or> (\<exists>y \<in> set ds. fst (improve p fo go u y (v, c) (f u y, g u y)) < f u y))"
proof (induction ds arbitrary: f g b)
  case Nil
  then show ?case by simp
next
  case (Cons x ds)
  then have x: "x \<in> S" and ds: "set ds \<subseteq> S"
    and ax: "advm x = Some (adv_cost p fo go v u x)"
    and ads: "\<forall>x \<in> set ds. advm x = Some (adv_cost p fo go v u x)" by auto
  let ?e = "\<lambda>y. improve p fo go u y (v, c) (f u y, g u y)"
  let ?f1 = "put f u x (fst (?e x))" and ?g1 = "put g u x (snd (?e x))"
  have F: "(\<lambda>a y. if a = u \<and> y \<in> set ds
              then fst (improve p fo go u y (v, c) (?f1 u y, ?g1 u y)) else ?f1 a y) =
           (\<lambda>a y. if a = u \<and> y \<in> set (x # ds) then fst (?e y) else f a y)"
    by (intro ext) (simp add: put_def improve_idem)
  have G: "(\<lambda>a y. if a = u \<and> y \<in> set ds
              then snd (improve p fo go u y (v, c) (?f1 u y, ?g1 u y)) else ?g1 a y) =
           (\<lambda>a y. if a = u \<and> y \<in> set (x # ds) then snd (?e y) else g a y)"
    by (intro ext) (simp add: put_def improve_idem)
  have B: "((b \<or> fst (?e x) < f u x) \<or>
            (\<exists>y \<in> set ds. fst (improve p fo go u y (v, c) (?f1 u y, ?g1 u y)) < ?f1 u y)) =
           (b \<or> (\<exists>y \<in> set (x # ds). fst (?e y) < f u y))"
    by (auto simp: put_def improve_idem)
  have "for_each (x # ds) (relax (tab S fo) u v c advm) (tab S f, tab S g, b) =
        for_each ds (relax (tab S fo) u v c advm)
          (tab S ?f1, tab S ?g1, b \<or> fst (?e x) < f u x)"
    using relax_tab [of u S v x advm p fo go c f g b] assms x ax by simp
  also have "\<dots> = Inr (tab S (\<lambda>a y. if a = u \<and> y \<in> set ds
                        then fst (improve p fo go u y (v, c) (?f1 u y, ?g1 u y)) else ?f1 a y),
          tab S (\<lambda>a y. if a = u \<and> y \<in> set ds
                        then snd (improve p fo go u y (v, c) (?f1 u y, ?g1 u y)) else ?g1 a y),
          (b \<or> fst (?e x) < f u x) \<or>
            (\<exists>y \<in> set ds. fst (improve p fo go u y (v, c) (?f1 u y, ?g1 u y)) < ?f1 u y))"
    by (rule Cons.IH [OF ds ads])
  also have "\<dots> = Inr (tab S (\<lambda>a y. if a = u \<and> y \<in> set (x # ds) then fst (?e y) else f a y),
          tab S (\<lambda>a y. if a = u \<and> y \<in> set (x # ds) then snd (?e y) else g a y),
          b \<or> (\<exists>y \<in> set (x # ds). fst (?e y) < f u y))"
    by (simp only: F G B)
  finally show ?case .
qed

lemma receive_tab:
  assumes "u \<in> S" "v \<in> S" "set nodes = S"
  shows "receive p nodes (tab S fo) (tab S go) u (v, c) (tab S f, tab S g, b) =
     Inr (tab S (\<lambda>a y. if a = u \<and> y \<in> S
                        then fst (improve p fo go u y (v, c) (f u y, g u y)) else f a y),
          tab S (\<lambda>a y. if a = u \<and> y \<in> S
                        then snd (improve p fo go u y (v, c) (f u y, g u y)) else g a y),
          b \<or> (\<exists>y \<in> S. fst (improve p fo go u y (v, c) (f u y, g u y)) < f u y))"
proof -
  have sub: "set nodes \<subseteq> S" using assms by simp
  let ?advm = "\<lambda>d. if d \<in> set nodes then Some (adv_cost p fo go v u d) else None"
  have adv: "advertise p nodes (tab S fo) (tab S go) v u = Inr ?advm"
    by (rule advertise_tab [OF assms(2) sub])
  have all: "\<forall>x \<in> set nodes. ?advm x = Some (adv_cost p fo go v u x)" by simp
  show ?thesis
    unfolding receive_def prod.case adv and_then_Inr
    using relax_loop_tab [OF assms(1,2) sub all, of c f g b] assms(3) by simp
qed

lemma improve_best_less:
  "(fst (improve p fo go u y vc e) < fst e \<or>
    fst (best p fo go row u y (improve p fo go u y vc e)) < fst (improve p fo go u y vc e)) =
   (fst (best p fo go row u y (improve p fo go u y vc e)) < fst e)"
  using improve_le [of p fo go u y vc e] best_le [of p fo go row u y "improve p fo go u y vc e"]
  by auto

lemma receive_loop_tab:
  assumes "u \<in> S" "set nodes = S"
  shows "fst ` set row \<subseteq> S \<Longrightarrow>
    for_each row (receive p nodes (tab S fo) (tab S go) u) (tab S f, tab S g, b) =
     Inr (tab S (\<lambda>a y. if a = u \<and> y \<in> S
                        then fst (best p fo go row u y (f u y, g u y)) else f a y),
          tab S (\<lambda>a y. if a = u \<and> y \<in> S
                        then snd (best p fo go row u y (f u y, g u y)) else g a y),
          b \<or> (\<exists>y \<in> S. fst (best p fo go row u y (f u y, g u y)) < f u y))"
proof (induction row arbitrary: f g b)
  case Nil
  have "(\<lambda>a y. if a = u \<and> y \<in> S then f u y else f a y) = f"
       "(\<lambda>a y. if a = u \<and> y \<in> S then g u y else g a y) = g"
    by (auto simp: fun_eq_iff)
  then show ?case by (simp add: best_Nil cong: if_cong)
next
  case (Cons vc row)
  obtain v c where vc: "vc = (v, c)" by (cases vc)
  from Cons.prems vc have v: "v \<in> S" and row: "fst ` set row \<subseteq> S" by auto
  let ?e = "\<lambda>y. improve p fo go u y (v, c) (f u y, g u y)"
  let ?f1 = "\<lambda>a y. if a = u \<and> y \<in> S then fst (?e y) else f a y"
  let ?g1 = "\<lambda>a y. if a = u \<and> y \<in> S then snd (?e y) else g a y"
  have F: "(\<lambda>a y. if a = u \<and> y \<in> S
              then fst (best p fo go row u y (?f1 u y, ?g1 u y)) else ?f1 a y) =
           (\<lambda>a y. if a = u \<and> y \<in> S
              then fst (best p fo go (vc # row) u y (f u y, g u y)) else f a y)"
    by (intro ext) (simp add: best_Cons vc)
  have G: "(\<lambda>a y. if a = u \<and> y \<in> S
              then snd (best p fo go row u y (?f1 u y, ?g1 u y)) else ?g1 a y) =
           (\<lambda>a y. if a = u \<and> y \<in> S
              then snd (best p fo go (vc # row) u y (f u y, g u y)) else g a y)"
    by (intro ext) (simp add: best_Cons vc)
  have B: "((b \<or> (\<exists>y \<in> S. fst (?e y) < f u y)) \<or>
            (\<exists>y \<in> S. fst (best p fo go row u y (?f1 u y, ?g1 u y)) < ?f1 u y)) =
           (b \<or> (\<exists>y \<in> S. fst (best p fo go (vc # row) u y (f u y, g u y)) < f u y))"
  proof -
    have P: "(fst (?e y) < f u y \<or> fst (best p fo go row u y (?e y)) < fst (?e y)) =
             (fst (best p fo go row u y (?e y)) < f u y)" for y
      using improve_best_less [of p fo go u y "(v, c)" "(f u y, g u y)" row] by simp
    have "((\<exists>y \<in> S. fst (?e y) < f u y) \<or>
           (\<exists>y \<in> S. fst (best p fo go row u y (?e y)) < fst (?e y))) =
          (\<exists>y \<in> S. fst (best p fo go row u y (?e y)) < f u y)"
      using P by blast
    then show ?thesis by (auto simp: best_Cons vc)
  qed
  have "for_each (vc # row) (receive p nodes (tab S fo) (tab S go) u) (tab S f, tab S g, b) =
        for_each row (receive p nodes (tab S fo) (tab S go) u)
          (tab S ?f1, tab S ?g1, b \<or> (\<exists>y \<in> S. fst (?e y) < f u y))"
    using receive_tab [OF assms(1) v assms(2), of p fo go c f g b] by (simp add: vc)
  also have "\<dots> = Inr (tab S (\<lambda>a y. if a = u \<and> y \<in> S
                        then fst (best p fo go row u y (?f1 u y, ?g1 u y)) else ?f1 a y),
          tab S (\<lambda>a y. if a = u \<and> y \<in> S
                        then snd (best p fo go row u y (?f1 u y, ?g1 u y)) else ?g1 a y),
          (b \<or> (\<exists>y \<in> S. fst (?e y) < f u y)) \<or>
            (\<exists>y \<in> S. fst (best p fo go row u y (?f1 u y, ?g1 u y)) < ?f1 u y))"
    by (rule Cons.IH [OF row])
  finally show ?case by (simp only: F G B)
qed

lemma node_round_tab:
  assumes "u \<in> S" "set nodes = S" "nb_ok S nb"
  shows "node_round p nodes nb (tab S fo) (tab S go) u (tab S f, tab S g, b) =
     Inr (tab S (\<lambda>a y. if a = u \<and> y \<in> S
                        then fst (best p fo go (nrow nb u) u y (f u y, g u y)) else f a y),
          tab S (\<lambda>a y. if a = u \<and> y \<in> S
                        then snd (best p fo go (nrow nb u) u y (f u y, g u y)) else g a y),
          b \<or> (\<exists>y \<in> S. fst (best p fo go (nrow nb u) u y (f u y, g u y)) < f u y))"
proof -
  from assms(1,3) obtain row where row: "nb u = Some row" "fst ` set row \<subseteq> S"
    unfolding nb_ok_def by blast
  then have r: "nrow nb u = row" and gi: "getitem nb u = Inr row" by (simp_all add: nrow_def)
  show ?thesis
    unfolding node_round_def r gi and_then_Inr
    by (rule receive_loop_tab [OF assms(1,2) row(2)])
qed

lemma node_loop_tab:
  assumes "set nodes = S" "nb_ok S nb"
  shows "set us \<subseteq> S \<Longrightarrow>
    for_each us (node_round p nodes nb (tab S fo) (tab S go)) (tab S f, tab S g, b) =
     Inr (tab S (\<lambda>a y. if a \<in> set us \<and> y \<in> S
                        then fst (best p fo go (nrow nb a) a y (f a y, g a y)) else f a y),
          tab S (\<lambda>a y. if a \<in> set us \<and> y \<in> S
                        then snd (best p fo go (nrow nb a) a y (f a y, g a y)) else g a y),
          b \<or> (\<exists>a \<in> set us. \<exists>y \<in> S. fst (best p fo go (nrow nb a) a y (f a y, g a y)) < f a y))"
proof (induction us arbitrary: f g b)
  case Nil
  then show ?case by simp
next
  case (Cons u us)
  then have u: "u \<in> S" and us: "set us \<subseteq> S" by auto
  let ?e = "\<lambda>a y. best p fo go (nrow nb a) a y (f a y, g a y)"
  let ?f1 = "\<lambda>a y. if a = u \<and> y \<in> S then fst (?e u y) else f a y"
  let ?g1 = "\<lambda>a y. if a = u \<and> y \<in> S then snd (?e u y) else g a y"
  have F: "(\<lambda>a y. if a \<in> set us \<and> y \<in> S
              then fst (best p fo go (nrow nb a) a y (?f1 a y, ?g1 a y)) else ?f1 a y) =
           (\<lambda>a y. if a \<in> set (u # us) \<and> y \<in> S then fst (?e a y) else f a y)"
    by (intro ext) (simp add: best_idem)
  have G: "(\<lambda>a y. if a \<in> set us \<and> y \<in> S
              then snd (best p fo go (nrow nb a) a y (?f1 a y, ?g1 a y)) else ?g1 a y) =
           (\<lambda>a y. if a \<in> set (u # us) \<and> y \<in> S then snd (?e a y) else g a y)"
    by (intro ext) (simp add: best_idem)
  have B: "((b \<or> (\<exists>y \<in> S. fst (?e u y) < f u y)) \<or>
            (\<exists>a \<in> set us. \<exists>y \<in> S.
                fst (best p fo go (nrow nb a) a y (?f1 a y, ?g1 a y)) < ?f1 a y)) =
           (b \<or> (\<exists>a \<in> set (u # us). \<exists>y \<in> S. fst (?e a y) < f a y))"
  proof -
    have P: "(fst (best p fo go (nrow nb a) a y (?f1 a y, ?g1 a y)) < ?f1 a y) =
             (a \<noteq> u \<and> fst (?e a y) < f a y)" if "y \<in> S" for a y
      using that by (simp add: best_idem)
    have Q: "(\<exists>a \<in> set us. \<exists>y \<in> S.
                fst (best p fo go (nrow nb a) a y (?f1 a y, ?g1 a y)) < ?f1 a y) =
             (\<exists>a \<in> set us. \<exists>y \<in> S. a \<noteq> u \<and> fst (?e a y) < f a y)"
      by (intro bex_cong refl P)
    show ?thesis unfolding Q by auto
  qed
  have "for_each (u # us) (node_round p nodes nb (tab S fo) (tab S go)) (tab S f, tab S g, b) =
        for_each us (node_round p nodes nb (tab S fo) (tab S go))
          (tab S ?f1, tab S ?g1, b \<or> (\<exists>y \<in> S. fst (?e u y) < f u y))"
    using node_round_tab [OF u assms, of p fo go f g b] by simp
  also have "\<dots> = Inr (tab S (\<lambda>a y. if a \<in> set us \<and> y \<in> S
              then fst (best p fo go (nrow nb a) a y (?f1 a y, ?g1 a y)) else ?f1 a y),
          tab S (\<lambda>a y. if a \<in> set us \<and> y \<in> S
              then snd (best p fo go (nrow nb a) a y (?f1 a y, ?g1 a y)) else ?g1 a y),
          (b \<or> (\<exists>y \<in> S. fst (?e u y) < f u y)) \<or>
            (\<exists>a \<in> set us. \<exists>y \<in> S.
                fst (best p fo go (nrow nb a) a y (?f1 a y, ?g1 a y)) < ?f1 a y))"
    by (rule Cons.IH [OF us])
  finally show ?case by (simp only: F G B)
qed

lemma round_tab:
  assumes "set nodes = S" "nb_ok S nb"
  shows "round p nodes nb (tab S f, tab S g) =
     Inr (tab S (new_dist p nb f g), tab S (new_hop p nb f g), changed p S nb f g)"
proof -
  have sub: "set nodes \<subseteq> S" using assms by simp
  have F: "tab S (\<lambda>a y. if a \<in> set nodes \<and> y \<in> S
              then fst (best p f g (nrow nb a) a y (f a y, g a y)) else f a y) =
           tab S (new_dist p nb f g)"
    using assms(1) by (simp add: tab_eq_iff new_dist_def)
  have G: "tab S (\<lambda>a y. if a \<in> set nodes \<and> y \<in> S
              then snd (best p f g (nrow nb a) a y (f a y, g a y)) else g a y) =
           tab S (new_hop p nb f g)"
    using assms(1) by (simp add: tab_eq_iff new_hop_def)
  have B: "(False \<or> (\<exists>a \<in> set nodes. \<exists>y \<in> S.
               fst (best p f g (nrow nb a) a y (f a y, g a y)) < f a y)) =
           changed p S nb f g"
    using assms(1) by (simp add: changed_def new_dist_def)
  show ?thesis
    unfolding round_def prod.case
    using node_loop_tab [OF assms sub, of p f g f g False] by (simp only: F G B)
qed

subsection \<open>The neighbors built from the edge list\<close>

lemma add_link_rows:
  "add_link (u, v, c) (rows S r) =
     (if u \<in> S \<and> v \<in> S then Inr (rows S (link (u, v, c) r)) else Inl KeyError)"
  by (auto simp: add_link_def rows_def link_def getitem_def Let_def fun_eq_iff)

lemma add_link_loop_rows:
  "for_each edges add_link (rows S r) =
     (if \<forall>e \<in> set edges. fst e \<in> S \<and> fst (snd e) \<in> S
      then Inr (rows S (fold link edges r)) else Inl KeyError)"
proof (induction edges arbitrary: r)
  case Nil
  show ?case by simp
next
  case (Cons e edges)
  obtain u v c where e: "e = (u, v, c)" by (cases e)
  show ?case
    by (simp add: e add_link_rows Cons.IH)
qed

lemma set_update_subset: "set (AList.update k v al) \<subseteq> insert (k, v) (set al)"
  by (induction al) auto

lemma link_entries:
  "(y, c) \<in> set (link (u, v, w) r a) \<Longrightarrow>
   (y, c) \<in> set (r a) \<or> (a = u \<and> y = v \<and> c = w) \<or> (a = v \<and> y = u \<and> c = w)"
  using set_update_subset [of v w "r u"] set_update_subset [of u w "r v"]
    set_update_subset [of u w "AList.update u w (r u)"]
  by (auto simp: link_def split: if_splits)

lemma fold_link_entries:
  "(y, c) \<in> set (fold link edges r a) \<Longrightarrow>
   (y, c) \<in> set (r a) \<or> (a, y, c) \<in> set edges \<or> (y, a, c) \<in> set edges"
proof (induction edges arbitrary: r)
  case Nil
  then show ?case by simp
next
  case (Cons e edges)
  obtain u v w where e: "e = (u, v, w)" by (cases e)
  from Cons.prems have "(y, c) \<in> set (fold link edges (link e r) a)" by simp
  from Cons.IH [OF this] link_entries [of y c u v w r a] e show ?case by auto
qed

lemma neighbors_of_edges:
  assumes "\<forall>e \<in> set edges. fst e \<in> S \<and> fst (snd e) \<in> S"
  shows "nb_ok S (rows S (fold link edges (\<lambda>u. [])))"
    and "nrow (rows S (fold link edges (\<lambda>u. []))) a =
           (if a \<in> S then fold link edges (\<lambda>u. []) a else [])"
proof -
  have "y \<in> S" if "(y, c) \<in> set (fold link edges (\<lambda>u. []) a)" for a y c
    using fold_link_entries [OF that] assms by force
  then show "nb_ok S (rows S (fold link edges (\<lambda>u. [])))"
    by (auto simp: nb_ok_def rows_def)
  show "nrow (rows S (fold link edges (\<lambda>u. []))) a =
           (if a \<in> S then fold link edges (\<lambda>u. []) a else [])"
    by (simp add: nrow_def rows_def)
qed

subsection \<open>The initial tables\<close>

lemma init_entry_Nil: "init_entry [] y e = e"
  by (simp add: init_entry_def)

lemma init_entry_Cons:
  "init_entry (vc # row) y e = init_entry row y (if fst vc = y then (snd vc, Some (fst vc)) else e)"
  by (simp add: init_entry_def)

lemma init_entry_known:
  "y \<in> fst ` set row \<Longrightarrow> init_entry row y e = init_entry row y e'"
proof (induction row arbitrary: e e')
  case Nil
  then show ?case by simp
next
  case (Cons vc row)
  show ?case
  proof (cases "y \<in> fst ` set row")
    case True
    from Cons.IH [OF True] show ?thesis by (simp add: init_entry_Cons)
  next
    case False
    with Cons.prems have "fst vc = y" by auto
    then show ?thesis by (simp add: init_entry_Cons)
  qed
qed

lemma init_entry_unknown: "y \<notin> fst ` set row \<Longrightarrow> init_entry row y e = e"
  by (induction row arbitrary: e) (auto simp: init_entry_Nil init_entry_Cons)

lemma init_entry_idem: "init_entry row y (init_entry row y e) = init_entry row y e"
  by (cases "y \<in> fst ` set row") (auto simp: init_entry_unknown intro: init_entry_known)

lemma init_link_tab:
  "u \<in> S \<Longrightarrow> v \<in> S \<Longrightarrow>
   init_link u (v, c) (tab S f, tab S g) = Inr (tab S (put f u v c), tab S (put g u v (Some v)))"
  by (simp add: init_link_def setitem2_tab put_def)

lemma init_link_loop_tab:
  assumes "u \<in> S"
  shows "fst ` set row \<subseteq> S \<Longrightarrow>
    for_each row (init_link u) (tab S f, tab S g) =
      Inr (tab S (\<lambda>a y. if a = u then fst (init_entry row y (f u y, g u y)) else f a y),
           tab S (\<lambda>a y. if a = u then snd (init_entry row y (f u y, g u y)) else g a y))"
proof (induction row arbitrary: f g)
  case Nil
  have "(\<lambda>a y. if a = u then f u y else f a y) = f" "(\<lambda>a y. if a = u then g u y else g a y) = g"
    by (auto simp: fun_eq_iff)
  then show ?case by (simp add: init_entry_Nil cong: if_cong)
next
  case (Cons vc row)
  obtain v c where vc: "vc = (v, c)" by (cases vc)
  from Cons.prems vc have v: "v \<in> S" and row: "fst ` set row \<subseteq> S" by auto
  let ?f1 = "put f u v c" and ?g1 = "put g u v (Some v)"
  have F: "(\<lambda>a y. if a = u then fst (init_entry row y (?f1 u y, ?g1 u y)) else ?f1 a y) =
           (\<lambda>a y. if a = u then fst (init_entry (vc # row) y (f u y, g u y)) else f a y)"
    by (intro ext) (auto simp: put_def init_entry_Cons vc)
  have G: "(\<lambda>a y. if a = u then snd (init_entry row y (?f1 u y, ?g1 u y)) else ?g1 a y) =
           (\<lambda>a y. if a = u then snd (init_entry (vc # row) y (f u y, g u y)) else g a y)"
    by (intro ext) (auto simp: put_def init_entry_Cons vc)
  have "for_each (vc # row) (init_link u) (tab S f, tab S g) =
        for_each row (init_link u) (tab S ?f1, tab S ?g1)"
    using init_link_tab [OF assms v, of c f g] by (simp add: vc)
  also have "\<dots> = Inr (tab S (\<lambda>a y. if a = u then fst (init_entry row y (?f1 u y, ?g1 u y)) else ?f1 a y),
           tab S (\<lambda>a y. if a = u then snd (init_entry row y (?f1 u y, ?g1 u y)) else ?g1 a y))"
    by (rule Cons.IH [OF row])
  finally show ?case by (simp only: F G)
qed

lemma init_row_idem: "init_row nb a y (init_row nb a y e) = init_row nb a y e"
  by (simp add: init_row_def init_entry_idem)

lemma init_node_tab:
  assumes "u \<in> S" "nb_ok S nb"
  shows "init_node nb u (tab S f, tab S g) =
      Inr (tab S (\<lambda>a y. if a = u then fst (init_row nb u y (f u y, g u y)) else f a y),
           tab S (\<lambda>a y. if a = u then snd (init_row nb u y (f u y, g u y)) else g a y))"
proof -
  from assms obtain row where row: "nb u = Some row" "fst ` set row \<subseteq> S"
    unfolding nb_ok_def by blast
  then have r: "nrow nb u = row" and gi: "getitem nb u = Inr row" by (simp_all add: nrow_def)
  let ?f1 = "put f u u 0" and ?g1 = "put g u u (Some u)"
  have F: "(\<lambda>a y. if a = u then fst (init_entry row y (?f1 u y, ?g1 u y)) else ?f1 a y) =
           (\<lambda>a y. if a = u then fst (init_row nb u y (f u y, g u y)) else f a y)"
    by (intro ext) (auto simp: put_def init_row_def r)
  have G: "(\<lambda>a y. if a = u then snd (init_entry row y (?f1 u y, ?g1 u y)) else ?g1 a y) =
           (\<lambda>a y. if a = u then snd (init_row nb u y (f u y, g u y)) else g a y)"
    by (intro ext) (auto simp: put_def init_row_def r)
  have "init_node nb u (tab S f, tab S g) = for_each row (init_link u) (tab S ?f1, tab S ?g1)"
    using assms(1) by (simp add: init_node_def setitem2_tab gi put_def)
  also have "\<dots> = Inr (tab S (\<lambda>a y. if a = u then fst (init_entry row y (?f1 u y, ?g1 u y)) else ?f1 a y),
           tab S (\<lambda>a y. if a = u then snd (init_entry row y (?f1 u y, ?g1 u y)) else ?g1 a y))"
    by (rule init_link_loop_tab [OF assms(1) row(2)])
  finally show ?thesis by (simp only: F G)
qed

lemma init_node_loop_tab:
  assumes "nb_ok S nb"
  shows "set us \<subseteq> S \<Longrightarrow>
    for_each us (init_node nb) (tab S f, tab S g) =
      Inr (tab S (\<lambda>a y. if a \<in> set us then fst (init_row nb a y (f a y, g a y)) else f a y),
           tab S (\<lambda>a y. if a \<in> set us then snd (init_row nb a y (f a y, g a y)) else g a y))"
proof (induction us arbitrary: f g)
  case Nil
  then show ?case by simp
next
  case (Cons u us)
  then have u: "u \<in> S" and us: "set us \<subseteq> S" by auto
  let ?f1 = "\<lambda>a y. if a = u then fst (init_row nb u y (f u y, g u y)) else f a y"
  let ?g1 = "\<lambda>a y. if a = u then snd (init_row nb u y (f u y, g u y)) else g a y"
  have F: "(\<lambda>a y. if a \<in> set us then fst (init_row nb a y (?f1 a y, ?g1 a y)) else ?f1 a y) =
           (\<lambda>a y. if a \<in> set (u # us) then fst (init_row nb a y (f a y, g a y)) else f a y)"
    by (intro ext) (simp add: init_row_idem)
  have G: "(\<lambda>a y. if a \<in> set us then snd (init_row nb a y (?f1 a y, ?g1 a y)) else ?g1 a y) =
           (\<lambda>a y. if a \<in> set (u # us) then snd (init_row nb a y (f a y, g a y)) else g a y)"
    by (intro ext) (simp add: init_row_idem)
  have "for_each (u # us) (init_node nb) (tab S f, tab S g) =
        for_each us (init_node nb) (tab S ?f1, tab S ?g1)"
    using init_node_tab [OF u assms, of f g] by simp
  also have "\<dots> = Inr (tab S (\<lambda>a y. if a \<in> set us then fst (init_row nb a y (?f1 a y, ?g1 a y)) else ?f1 a y),
           tab S (\<lambda>a y. if a \<in> set us then snd (init_row nb a y (?f1 a y, ?g1 a y)) else ?g1 a y))"
    by (rule Cons.IH [OF us])
  finally show ?case by (simp only: F G)
qed

lemma nb_ok_nb_of: "endpoints_ok S edges \<Longrightarrow> nb_ok S (nb_of S edges)"
  unfolding nb_of_def endpoints_ok_def by (rule neighbors_of_edges(1))

lemma init_tables_tab:
  "init_tables nodes edges =
     (if endpoints_ok (set nodes) edges
      then Inr (nb_of (set nodes) edges,
                tab (set nodes) (dist0 (nb_of (set nodes) edges)),
                tab (set nodes) (hop0 (nb_of (set nodes) edges)))
      else Inl KeyError)"
proof (cases "endpoints_ok (set nodes) edges")
  case False
  have nb0: "(\<lambda>u. if u \<in> set nodes then Some [] else None) = rows (set nodes) (\<lambda>u. [])"
    by (simp add: rows_def)
  have e: "for_each edges add_link (rows (set nodes) (\<lambda>u. [])) = Inl KeyError"
    using False by (simp add: add_link_loop_rows endpoints_ok_def)
  show ?thesis
    unfolding init_tables_def nb0 e using False by simp
next
  case True
  let ?S = "set nodes" and ?nb = "nb_of (set nodes) edges"
  have nb0: "(\<lambda>u. if u \<in> set nodes then Some [] else None) = rows ?S (\<lambda>u. [])"
    by (simp add: rows_def)
  have nb: "for_each edges add_link (rows ?S (\<lambda>u. [])) = Inr ?nb"
    using True by (simp add: add_link_loop_rows endpoints_ok_def nb_of_def)
  have d0: "(\<lambda>u. if u \<in> set nodes
                 then Some (\<lambda>d. if d \<in> set nodes then Some INF_cost else None) else None)
            = tab ?S (\<lambda>a y. INF_cost)"
    by (simp add: tab_def)
  have h0: "(\<lambda>u. if u \<in> set nodes
                 then Some (\<lambda>d. if d \<in> set nodes then Some None else None) else None)
            = tab ?S (\<lambda>a y. None)"
    by (simp add: tab_def)
  have F: "tab ?S (\<lambda>a y. if a \<in> set nodes
              then fst (init_row ?nb a y (INF_cost, None)) else INF_cost) = tab ?S (dist0 ?nb)"
    by (simp add: tab_eq_iff dist0_def)
  have G: "tab ?S (\<lambda>a y. if a \<in> set nodes
              then snd (init_row ?nb a y (INF_cost, None)) else None) = tab ?S (hop0 ?nb)"
    by (simp add: tab_eq_iff hop0_def)
  have "for_each nodes (init_node ?nb) (tab ?S (\<lambda>a y. INF_cost), tab ?S (\<lambda>a y. None)) =
        Inr (tab ?S (dist0 ?nb), tab ?S (hop0 ?nb))"
    using init_node_loop_tab [OF nb_ok_nb_of [OF True], of nodes "\<lambda>a y. INF_cost" "\<lambda>a y. None"]
    by (simp only: F G subset_refl)
  then show ?thesis
    using True unfolding init_tables_def nb0 nb d0 h0 by simp
qed

subsection \<open>Runs on tables over the node set\<close>

lemma rounds_tab:
  assumes "set nodes = S" "nb_ok S nb"
  shows "rounds p nodes nb k (tab S f, tab S g) =
     Inr (tab S (fst (ptabs p nb k (f, g))), tab S (snd (ptabs p nb k (f, g))))"
proof (induction k arbitrary: f g)
  case 0
  show ?case by simp
next
  case (Suc k)
  show ?case by (simp add: round_tab [OF assms] Suc.IH)
qed


lemma dv_loop_total:
  assumes "set nodes = S" "nb_ok S nb"
  shows "n = 51 - it \<Longrightarrow>
    \<exists>f' g' n' oc. dv_loop p nodes nb it (tab S f, tab S g) = Inr ((tab S f', tab S g'), n', oc)"
proof (induction n arbitrary: it f g)
  case 0
  then show ?case
    by (simp add: dv_loop.simps [of p _ nb it] round_tab [OF assms]) blast
next
  case (Suc n)
  then have "n = 51 - Suc it" by simp
  from Suc.IH [OF this] show ?case
    by (simp add: dv_loop.simps [of p _ nb it] round_tab [OF assms]) blast
qed

lemma init_tables_InrD:
  assumes "init_tables nodes edges = Inr (nb, d0)"
  shows "endpoints_ok (set nodes) edges" "nb = nb_of (set nodes) edges"
    "d0 = (tab (set nodes) (dist0 nb), tab (set nodes) (hop0 nb))" "nb_ok (set nodes) nb"
proof -
  show e: "endpoints_ok (set nodes) edges"
    using assms by (auto simp: init_tables_tab split: if_splits)
  with assms show nb: "nb = nb_of (set nodes) edges"
    and "d0 = (tab (set nodes) (dist0 nb), tab (set nodes) (hop0 nb))"
    by (auto simp: init_tables_tab)
  from nb nb_ok_nb_of [OF e] show "nb_ok (set nodes) nb" by simp
qed

subsection \<open>Costs from round to round\<close>

lemma ptabs_Suc_back:
  "ptabs p nb (Suc k) fg =
     (new_dist p nb (fst (ptabs p nb k fg)) (snd (ptabs p nb k fg)),
      new_hop p nb (fst (ptabs p nb k fg)) (snd (ptabs p nb k fg)))"
proof (induction k arbitrary: fg)
  case 0
  show ?case by simp
next
  case (Suc k)
  let ?s = "(new_dist p nb (fst fg) (snd fg), new_hop p nb (fst fg) (snd fg))"
  have a: "ptabs p nb (Suc (Suc k)) fg = ptabs p nb (Suc k) ?s"
    by (simp only: ptabs.simps)
  have b: "ptabs p nb (Suc k) fg = ptabs p nb k ?s"
    by (simp only: ptabs.simps)
  show ?case unfolding a b by (rule Suc.IH)
qed

lemma new_dist_le: "new_dist p nb f g a y \<le> f a y"
  using best_le [of p f g "nrow nb a" a y "(f a y, g a y)"] by (simp add: new_dist_def)

lemma ptabs_mono: "j \<le> k \<Longrightarrow> fst (ptabs p nb k fg) a y \<le> fst (ptabs p nb j fg) a y"
proof (induction k)
  case 0
  then show ?case by simp
next
  case (Suc k)
  show ?case
  proof (cases "j = Suc k")
    case True
    then show ?thesis by simp
  next
    case False
    with Suc.prems have "j \<le> k" by simp
    from Suc.IH [OF this]
      new_dist_le [of p nb "fst (ptabs p nb k fg)" "snd (ptabs p nb k fg)" a y]
    show ?thesis unfolding ptabs_Suc_back by simp
  qed
qed

subsection \<open>The run and the value returned\<close>

lemma distance_vector_simulate:
  "distance_vector nodes edges p = and_then (simulate nodes edges p) (\<lambda>(tabs, n, oc). Inr tabs)"
  by (cases "init_tables nodes edges")
     (auto simp: distance_vector_def simulate_def split: prod.splits)

lemma rounds_Suc_back:
  "rounds p ns nb k tabs = Inr t \<Longrightarrow> round p ns nb t = Inr (d, h, upd) \<Longrightarrow>
   rounds p ns nb (Suc k) tabs = Inr (d, h)"
  using rounds_add [of p ns nb k 1 tabs] by simp

lemma simulate_tabs:
  assumes "endpoints_ok (set nodes) edges"
  shows "\<exists>f g n oc. simulate nodes edges p = Inr ((tab (set nodes) f, tab (set nodes) g), n, oc)"
proof -
  let ?nb = "nb_of (set nodes) edges"
  from dv_loop_total [OF refl nb_ok_nb_of [OF assms], of 51 0 p "dist0 ?nb" "hop0 ?nb"]
  show ?thesis using assms by (simp add: simulate_def init_tables_tab)
qed

lemma single_node_output:
  assumes run: "and_then (simulate [a] edges p)
     (\<lambda>((dist, next_hop), n, oc).
        and_then (getitem2 dist a a) (\<lambda>c.
        and_then (getitem2 next_hop a a) (\<lambda>h. Inr (c, h, n, oc)))) = Inr (c, h, n, oc)"
    and ok: "endpoints_ok (set [a]) edges"
  shows "simulate [a] edges p = Inr ((tab {a} (\<lambda>u d. c), tab {a} (\<lambda>u d. h)), n, oc)"
proof -
  from simulate_tabs [OF ok, of p] obtain f g n' oc' where
    s: "simulate [a] edges p = Inr ((tab {a} f, tab {a} g), n', oc')" by auto
  from run have "f a a = c" "g a a = h" "n' = n" "oc' = oc"
    unfolding s by (simp_all add: getitem2_tab)
  moreover from this have "tab {a} f = tab {a} (\<lambda>u d. c)" "tab {a} g = tab {a} (\<lambda>u d. h)"
    by (simp_all add: tab_eq_iff)
  ultimately show ?thesis using s by simp
qed

subsection \<open>Links between different nodes at non-negative cost\<close>

lemma init_entry_cases:
  "init_entry row y e = e \<or> (\<exists>c. (y, c) \<in> set row \<and> init_entry row y e = (c, Some y))"
proof (induction row arbitrary: e)
  case Nil
  show ?case by (simp add: init_entry_Nil)
next
  case (Cons vc row)
  obtain v c where vc: "vc = (v, c)" by (cases vc)
  from Cons.IH [of "if fst vc = y then (snd vc, Some (fst vc)) else e"]
  show ?case by (auto simp: init_entry_Cons vc split: if_splits)
qed

lemma best_cases:
  "best p f g row a y e = e \<or>
   (\<exists>v c. (v, c) \<in> set row \<and>
      best p f g row a y e = (via_v c (adv_cost p f g v a y), Some v) \<and>
      via_v c (adv_cost p f g v a y) < fst e)"
proof (induction row arbitrary: e)
  case Nil
  show ?case by (simp add: best_Nil)
next
  case (Cons vc row)
  obtain v c where vc: "vc = (v, c)" by (cases vc)
  let ?e1 = "improve p f g a y vc e"
  have e1: "?e1 = e \<or> (?e1 = (via_v c (adv_cost p f g v a y), Some v) \<and>
      via_v c (adv_cost p f g v a y) < fst e)"
    by (simp add: improve_def vc)
  have le: "fst ?e1 \<le> fst e" by (rule improve_le)
  from Cons.IH [of ?e1] show ?case
  proof
    assume "best p f g row a y ?e1 = ?e1"
    with e1 show ?thesis by (auto simp: best_Cons vc)
  next
    assume "\<exists>v c. (v, c) \<in> set row \<and>
      best p f g row a y ?e1 = (via_v c (adv_cost p f g v a y), Some v) \<and>
      via_v c (adv_cost p f g v a y) < fst ?e1"
    then obtain v' c' where "(v', c') \<in> set row"
      "best p f g row a y ?e1 = (via_v c' (adv_cost p f g v' a y), Some v')"
      "via_v c' (adv_cost p f g v' a y) < fst ?e1" by blast
    with le have "(v', c') \<in> set (vc # row) \<and>
      best p f g (vc # row) a y e = (via_v c' (adv_cost p f g v' a y), Some v') \<and>
      via_v c' (adv_cost p f g v' a y) < fst e"
      by (simp add: best_Cons)
    then show ?thesis by blast
  qed
qed

lemma nb_of_entries:
  assumes "links_ok edges" "endpoints_ok S edges" "(v, c) \<in> set (nrow (nb_of S edges) a)"
  shows "v \<noteq> a \<and> 0 \<le> c \<and> v \<in> S"
proof -
  from assms(3) have "(v, c) \<in> set (fold link edges (\<lambda>u. []) a)"
    by (auto simp: nb_of_def nrow_def rows_def split: if_splits)
  from fold_link_entries [OF this] have "(a, v, c) \<in> set edges \<or> (v, a, c) \<in> set edges"
    by simp
  with assms(1,2) show ?thesis
    unfolding links_ok_def endpoints_ok_def by force
qed

lemma self_routes_init:
  assumes "links_ok edges" "endpoints_ok S edges"
  shows "self_routes S (dist0 (nb_of S edges), hop0 (nb_of S edges))"
proof -
  let ?nb = "nb_of S edges"
  have inf: "0 \<le> INF_cost" by (simp add: INF_cost_def)
  have nonneg: "0 \<le> dist0 ?nb a y" for a y
    using init_entry_cases [of "nrow ?nb a" y "if y = a then (0, Some a) else (INF_cost, None)"]
      nb_of_entries [OF assms, of y _ a] inf
    by (auto simp: dist0_def init_row_def)
  have "a \<notin> fst ` set (nrow ?nb a)" for a
    using nb_of_entries [OF assms, of a _ a] by auto
  then have "dist0 ?nb a a = 0 \<and> hop0 ?nb a a = Some a" for a
    by (simp add: dist0_def hop0_def init_row_def init_entry_unknown)
  with nonneg show ?thesis by (simp add: self_routes_def)
qed

lemma self_routes_round:
  assumes "links_ok edges" "endpoints_ok S edges" "self_routes S (f, g)"
  shows "self_routes S (new_dist p (nb_of S edges) f g, new_hop p (nb_of S edges) f g)"
proof -
  let ?nb = "nb_of S edges"
  have inf: "0 \<le> INF_cost" by (simp add: INF_cost_def)
  have cand: "0 \<le> via_v c (adv_cost p f g v a y)"
    if "(v, c) \<in> set (nrow ?nb a)" "y \<in> S" for v c a y
  proof -
    from nb_of_entries [OF assms(1,2) that(1)] have "0 \<le> c" "v \<in> S" by simp_all
    with assms(3) that(2) have "0 \<le> f v y" by (simp add: self_routes_def)
    with \<open>0 \<le> c\<close> inf show ?thesis by (simp add: via_v_def adv_cost_def)
  qed
  have nonneg: "0 \<le> new_dist p ?nb f g a y" if "a \<in> S" "y \<in> S" for a y
    using best_cases [of p f g "nrow ?nb a" a y "(f a y, g a y)"] cand [OF _ that(2), of _ _ a]
      assms(3) that
    by (auto simp: new_dist_def self_routes_def)
  have self: "best p f g (nrow ?nb a) a a (f a a, g a a) = (f a a, g a a)" if "a \<in> S" for a
  proof -
    from assms(3) that have zero: "f a a = 0" by (simp add: self_routes_def)
    from best_cases [of p f g "nrow ?nb a" a a "(f a a, g a a)"] show ?thesis
    proof
      assume "\<exists>v c. (v, c) \<in> set (nrow ?nb a) \<and>
        best p f g (nrow ?nb a) a a (f a a, g a a) = (via_v c (adv_cost p f g v a a), Some v) \<and>
        via_v c (adv_cost p f g v a a) < fst (f a a, g a a)"
      then obtain v c where "(v, c) \<in> set (nrow ?nb a)"
        "via_v c (adv_cost p f g v a a) < fst (f a a, g a a)" by blast
      with cand [OF this(1) that] zero show ?thesis by simp
    qed
  qed
  show ?thesis
    using nonneg self assms(3) by (simp add: self_routes_def new_dist_def new_hop_def)
qed

lemma self_routes_ptabs:
  assumes "links_ok edges" "endpoints_ok S edges"
  shows "self_routes S (ptabs p (nb_of S edges) k (dist0 (nb_of S edges), hop0 (nb_of S edges)))"
proof (induction k)
  case 0
  show ?case using self_routes_init [OF assms] by simp
next
  case (Suc k)
  let ?t = "ptabs p (nb_of S edges) k (dist0 (nb_of S edges), hop0 (nb_of S edges))"
  from Suc.IH have "self_routes S (fst ?t, snd ?t)" by simp
  from self_routes_round [OF assms this] show ?case
    unfolding ptabs_Suc_back by simp
qed

subsection \<open>The order of the links\<close>





















lemma dv_loop_result:
  assumes init: "init_tables nodes edges = Inr (nb, d0)"
  shows "\<exists>tabs n oc t upd.
     dv_loop p nodes nb 0 d0 = Inr (tabs, n, oc) \<and> 1 \<le> n \<and> n \<le> 51 \<and>
     rounds p nodes nb (n - 1) d0 = Inr t \<and>
     round p nodes nb t = Inr (fst tabs, snd tabs, upd) \<and>
     (oc = Converged \<longleftrightarrow> \<not> upd) \<and> (oc = AbortedOnIterationLimit \<longrightarrow> n = 51) \<and>
     (\<forall>j < n - 1. \<exists>t' d h. rounds p nodes nb j d0 = Inr t' \<and>
         round p nodes nb t' = Inr (d, h, True))"
proof -
  note d = init_tables_InrD [OF init]
  from dv_loop_total [OF refl d(4), of 51 0 p "dist0 nb" "hop0 nb"] d(3)
  obtain tabs n oc where res: "dv_loop p nodes nb 0 d0 = Inr (tabs, n, oc)" by auto
  have "loop_spec p nodes nb 0 d0 (dv_loop p nodes nb 0 d0)"
    by (rule dv_loop_spec) simp_all
  then obtain k t upd where k:
    "n = 0 + Suc k" "n \<le> 51" "rounds p nodes nb k d0 = Inr t"
    "round p nodes nb t = Inr (fst tabs, snd tabs, upd)"
    "oc = Converged \<longleftrightarrow> \<not> upd" "oc = AbortedOnIterationLimit \<longrightarrow> n = 51"
    "\<forall>j < k. \<exists>t' d h. rounds p nodes nb j d0 = Inr t' \<and> round p nodes nb t' = Inr (d, h, True)"
    unfolding loop_spec_def res sum.case prod.case by blast
  from k(1) have kn: "k = n - 1" "1 \<le> n" by simp_all
  have "dv_loop p nodes nb 0 d0 = Inr (tabs, n, oc) \<and> 1 \<le> n \<and> n \<le> 51 \<and>
     rounds p nodes nb (n - 1) d0 = Inr t \<and>
     round p nodes nb t = Inr (fst tabs, snd tabs, upd) \<and>
     (oc = Converged \<longleftrightarrow> \<not> upd) \<and> (oc = AbortedOnIterationLimit \<longrightarrow> n = 51) \<and>
     (\<forall>j < n - 1. \<exists>t' d h. rounds p nodes nb j d0 = Inr t' \<and>
         round p nodes nb t' = Inr (d, h, True))"
    using k(2-7) res kn by simp
  then show ?thesis by blast
qed

subsection \<open>Poisoned reverse on links between different nodes\<close>











section \<open>The claims about the simulator\<close>

subsection \<open>The advertised vector\<close>



subsection \<open>Errors of the construction\<close>

text \<open>
  Counterexample to C2 as stated: a link of cost 0, a link of negative cost and a
  duplicate pair with a conflicting cost are all accepted, and the simulation then runs
  to its end; a link to an unknown node raises \<open>KeyError\<close>.
\<close>

theorem init_tables_accepts_malformed_links:
  "(\<exists>r. distance_vector [''A'', ''B''] [(''A'', ''B'', 0)] False = Inr r) \<and>
   (\<exists>r. distance_vector [''A'', ''B''] [(''A'', ''B'', - 1)] False = Inr r) \<and>
   (\<exists>r. distance_vector [''A'', ''B''] [(''A'', ''B'', 1), (''B'', ''A'', 5)] False = Inr r) \<and>
   init_tables [''A''] [(''A'', ''B'', 1)] = Inl KeyError"
proof -
  have ok: "endpoints_ok (set [''A'', ''B'']) es"
    if "es \<in> {[(''A'', ''B'', 0)], [(''A'', ''B'', - 1)], [(''A'', ''B'', 1), (''B'', ''A'', 5)]}"
    for es :: "(string \<times> string \<times> int) list"
    using that by (auto simp: endpoints_ok_def)
  have run: "\<exists>r. distance_vector [''A'', ''B''] es False = Inr r"
    if "endpoints_ok (set [''A'', ''B'']) es" for es :: "(string \<times> string \<times> int) list"
  proof -
    let ?S = "set [''A'', ''B'']" and ?nb = "nb_of (set [''A'', ''B'']) es"
    from dv_loop_total [OF refl nb_ok_nb_of [OF that], of 51 0 False "dist0 ?nb" "hop0 ?nb"]
    obtain f' g' n' oc where
      "dv_loop False [''A'', ''B''] ?nb 0 (tab ?S (dist0 ?nb), tab ?S (hop0 ?nb)) =
         Inr ((tab ?S f', tab ?S g'), n', oc)" by auto
    then show ?thesis using that by (simp add: distance_vector_def init_tables_tab)
  qed
  have "\<not> endpoints_ok (set [''A'']) [(''A'', ''B'', 1::int)]"
    by (simp add: endpoints_ok_def)
  then have "init_tables [''A''] [(''A'', ''B'', 1)] = Inl KeyError"
    by (simp add: init_tables_tab)
  with run [OF ok] show ?thesis by simp
qed

text \<open>
  C2, amended: the only exception is \<open>KeyError\<close>, raised by init_tables (at
  construction, never during the simulation) exactly when a link references an
  identity that is not in the node list; every other link list is accepted, whatever
  its costs and duplicates, and the simulation then returns without raising.
\<close>

theorem init_tables_raises:
  "(if \<forall>e \<in> set edges. fst e \<in> set nodes \<and> fst (snd e) \<in> set nodes
    then (\<exists>t. init_tables nodes edges = Inr t) \<and> (\<exists>r. distance_vector nodes edges p = Inr r)
    else init_tables nodes edges = Inl KeyError \<and> distance_vector nodes edges p = Inl KeyError)"
proof (cases "endpoints_ok (set nodes) edges")
  case True
  let ?S = "set nodes" and ?nb = "nb_of (set nodes) edges"
  from dv_loop_total [OF refl nb_ok_nb_of [OF True], of 51 0 p "dist0 ?nb" "hop0 ?nb"]
  obtain f' g' n' oc where
    "dv_loop p nodes ?nb 0 (tab ?S (dist0 ?nb), tab ?S (hop0 ?nb)) =
       Inr ((tab ?S f', tab ?S g'), n', oc)" by auto
  then have "\<exists>r. distance_vector nodes edges p = Inr r"
    using True by (simp add: distance_vector_def init_tables_tab)
  moreover have "\<exists>t. init_tables nodes edges = Inr t"
    using True by (simp add: init_tables_tab)
  ultimately show ?thesis using True by (simp add: endpoints_ok_def)
next
  case False
  then have "init_tables nodes edges = Inl KeyError" by (simp add: init_tables_tab)
  then show ?thesis using False by (simp add: distance_vector_def endpoints_ok_def)
qed

theorem init_tables_raises_witness:
  "(\<exists>t. init_tables [''A'', ''B'', ''C''] [(''A'', ''B'', 1), (''B'', ''C'', 1), (''A'', ''C'', 4)] = Inr t) \<and>
   (\<exists>r. distance_vector [''A'', ''B'', ''C''] [(''A'', ''B'', 1), (''B'', ''C'', 1), (''A'', ''C'', 4)] True
            = Inr r) \<and>
   init_tables [''A'', ''B''] [(''A'', ''B'', 1), (''B'', ''D'', 2)] = Inl KeyError \<and>
   distance_vector [''A'', ''B''] [(''A'', ''B'', 1), (''B'', ''D'', 2)] True = Inl KeyError"
  using init_tables_raises [of "[(''A'', ''B'', 1), (''B'', ''C'', 1), (''A'', ''C'', 4)]"
      "[''A'', ''B'', ''C'']" True]
    init_tables_raises [of "[(''A'', ''B'', 1), (''B'', ''D'', 2)]" "[''A'', ''B'']" True]
  by simp

subsection \<open>Termination\<close>

text \<open>
  C3: for every node list and link list the simulation terminates. Either init_tables
  raises, and no round is run; or the loop returns after \<open>n\<close> rounds with
  \<open>1 \<le> n \<le> 51\<close>: each of the first \<open>n - 1\<close> rounds changed a table, and round \<open>n\<close>
  either changed nothing (Converged: the loop stops at the first such round) or is
  round 51, where the iteration counter exceeds the bound of 50
  (AbortedOnIterationLimit).
\<close>

theorem simulation_terminates:
  "(init_tables nodes edges = Inl KeyError \<and> simulate nodes edges p = Inl KeyError) \<or>
   (\<exists>nb d0 tabs n oc t upd.
      init_tables nodes edges = Inr (nb, d0) \<and>
      simulate nodes edges p = Inr (tabs, n, oc) \<and> 1 \<le> n \<and> n \<le> 51 \<and>
      rounds p nodes nb (n - 1) d0 = Inr t \<and>
      round p nodes nb t = Inr (fst tabs, snd tabs, upd) \<and>
      (oc = Converged \<longleftrightarrow> \<not> upd) \<and> (oc = AbortedOnIterationLimit \<longrightarrow> n = 51) \<and>
      (\<forall>j < n - 1. \<exists>t' d h. rounds p nodes nb j d0 = Inr t' \<and>
          round p nodes nb t' = Inr (d, h, True)))"
proof (cases "endpoints_ok (set nodes) edges")
  case False
  then have "init_tables nodes edges = Inl KeyError" by (simp add: init_tables_tab)
  then show ?thesis by (simp add: simulate_def)
next
  case True
  then obtain nb d0 where init: "init_tables nodes edges = Inr (nb, d0)"
    by (simp add: init_tables_tab)
  from dv_loop_result [OF init, of p] obtain tabs n oc t upd where r:
    "dv_loop p nodes nb 0 d0 = Inr (tabs, n, oc)" "1 \<le> n" "n \<le> 51"
    "rounds p nodes nb (n - 1) d0 = Inr t"
    "round p nodes nb t = Inr (fst tabs, snd tabs, upd)"
    "oc = Converged \<longleftrightarrow> \<not> upd" "oc = AbortedOnIterationLimit \<longrightarrow> n = 51"
    "\<forall>j < n - 1. \<exists>t' d h. rounds p nodes nb j d0 = Inr t' \<and>
         round p nodes nb t' = Inr (d, h, True)"
    by blast
  from r(1) init have "simulate nodes edges p = Inr (tabs, n, oc)" by (simp add: simulate_def)
  with init r(2-8) show ?thesis by blast
qed

text \<open>
  The triangle of the spec converges in round 2; a link of negative cost keeps every
  round changing a table, and the loop stops in round 51.
\<close>

theorem simulation_terminates_witness:
  "(\<exists>tabs n oc.
     simulate [''A'', ''B'', ''C''] [(''A'', ''B'', 1), (''B'', ''C'', 1), (''A'', ''C'', 4)] True
       = Inr (tabs, n, oc) \<and> 1 \<le> n \<and> n \<le> 51) \<and>
   and_then
     (simulate [''A'', ''B'', ''C''] [(''A'', ''B'', 1), (''B'', ''C'', 1), (''A'', ''C'', 4)] True)
     (\<lambda>(tabs, n, oc). Inr (n, oc)) = Inr (2, Converged) \<and>
   and_then (simulate [1::nat, 2] [(1, 2, - 1)] False) (\<lambda>(tabs, n, oc). Inr (n, oc)) =
     Inr (51, AbortedOnIterationLimit)"
proof (intro conjI)
  let ?ns = "[''A'', ''B'', ''C'']"
  let ?es = "[(''A'', ''B'', 1::int), (''B'', ''C'', 1), (''A'', ''C'', 4)]"
  have "init_tables ?ns ?es \<noteq> Inl KeyError"
    by (simp add: init_tables_tab endpoints_ok_def)
  with simulation_terminates [of ?ns ?es True]
  show "\<exists>tabs n oc. simulate ?ns ?es True = Inr (tabs, n, oc) \<and> 1 \<le> n \<and> n \<le> 51"
    by blast
  show "and_then (simulate ?ns ?es True) (\<lambda>(tabs, n, oc). Inr (n, oc)) = Inr (2, Converged)"
    by code_simp
  show "and_then (simulate [1::nat, 2] [(1, 2, - 1)] False) (\<lambda>(tabs, n, oc). Inr (n, oc)) =
     Inr (51, AbortedOnIterationLimit)"
    by code_simp
qed

subsection \<open>The route of a node to itself\<close>

text \<open>
  Counterexample to C4 as stated: a link from a node to itself overwrites the entry of
  the node for itself at initialization, and with a link of negative cost the first
  round lowers that entry below 0.
\<close>

theorem self_route_broken:
  "and_then (init_tables [''A''] [(''A'', ''A'', 5)])
     (\<lambda>(nb, dist, next_hop). getitem2 dist ''A'' ''A'') = Inr 5 \<and>
   and_then (init_tables [''A'', ''B''] [(''A'', ''B'', - 1)])
     (\<lambda>(nb, d0). and_then (rounds False [''A'', ''B''] nb 0 d0)
        (\<lambda>(dist, next_hop). getitem2 dist ''A'' ''A'')) = Inr 0 \<and>
   and_then (init_tables [''A'', ''B''] [(''A'', ''B'', - 1)])
     (\<lambda>(nb, d0). and_then (rounds False [''A'', ''B''] nb 1 d0)
        (\<lambda>(dist, next_hop).
           and_then (getitem2 dist ''A'' ''A'') (\<lambda>c.
           and_then (getitem2 next_hop ''A'' ''A'') (\<lambda>h. Inr (c, h))))) = Inr (- 2, Some ''B'')"
  by code_simp

text \<open>
  C4, amended: when every link joins two different nodes and has a cost that is not
  negative, the entry of every node \<open>u\<close> for destination \<open>u\<close> is (cost 0, next hop
  \<open>u\<close>) after initialization and after every number of rounds.
\<close>

theorem self_route_invariant:
  "\<forall>e \<in> set edges. fst e \<noteq> fst (snd e) \<and> 0 \<le> snd (snd e) \<Longrightarrow>
   init_tables nodes edges = Inr (nb, d0) \<Longrightarrow> u \<in> set nodes \<Longrightarrow>
   \<exists>dist next_hop. rounds p nodes nb k d0 = Inr (dist, next_hop) \<and>
     getitem2 dist u u = Inr 0 \<and> getitem2 next_hop u u = Inr (Some u)"
proof -
  assume links: "\<forall>e \<in> set edges. fst e \<noteq> fst (snd e) \<and> 0 \<le> snd (snd e)"
    and init: "init_tables nodes edges = Inr (nb, d0)" and u: "u \<in> set nodes"
  note d = init_tables_InrD [OF init]
  let ?S = "set nodes"
  let ?t = "ptabs p nb k (dist0 nb, hop0 nb)"
  from links have "links_ok edges" by (simp add: links_ok_def)
  from self_routes_ptabs [OF this d(1), of p k] d(2) have "self_routes ?S ?t" by simp
  with u have "fst ?t u u = 0" "snd ?t u u = Some u" by (simp_all add: self_routes_def)
  with u have "getitem2 (tab ?S (fst ?t)) u u = Inr 0"
    "getitem2 (tab ?S (snd ?t)) u u = Inr (Some u)"
    by (simp_all add: getitem2_tab)
  moreover have "rounds p nodes nb k d0 = Inr (tab ?S (fst ?t), tab ?S (snd ?t))"
    unfolding d(3) by (rule rounds_tab [OF refl d(4)])
  ultimately show ?thesis by blast
qed

theorem self_route_invariant_witness:
  "\<exists>nb d0 dist next_hop.
     init_tables [''A'', ''B'', ''C''] [(''A'', ''B'', 1), (''B'', ''C'', 1), (''A'', ''C'', 4)]
       = Inr (nb, d0) \<and>
     rounds True [''A'', ''B'', ''C''] nb 2 d0 = Inr (dist, next_hop) \<and>
     getitem2 dist ''B'' ''B'' = Inr 0 \<and> getitem2 next_hop ''B'' ''B'' = Inr (Some ''B'')"
proof -
  let ?ns = "[''A'', ''B'', ''C'']"
  let ?es = "[(''A'', ''B'', 1::int), (''B'', ''C'', 1), (''A'', ''C'', 4)]"
  have "\<exists>t. init_tables ?ns ?es = Inr t"
    by (simp add: init_tables_tab endpoints_ok_def)
  then obtain nb d0 where init: "init_tables ?ns ?es = Inr (nb, d0)" by force
  have links: "\<forall>e \<in> set ?es. fst e \<noteq> fst (snd e) \<and> 0 \<le> snd (snd e)" by simp
  have b: "''B'' \<in> set ?ns" by simp
  from self_route_invariant [OF links init b, of True 2] init show ?thesis by blast
qed

subsection \<open>Costs never increase\<close>

text \<open>
  C5: for every node \<open>u\<close> and destination \<open>y\<close>, the costs recorded in the table of
  \<open>u\<close> for \<open>y\<close> after \<open>0, 1, 2, \<dots>\<close> rounds form a non-increasing sequence.
\<close>

theorem cost_never_increases:
  "init_tables nodes edges = Inr (nb, d0) \<Longrightarrow> u \<in> set nodes \<Longrightarrow> y \<in> set nodes \<Longrightarrow> j \<le> k \<Longrightarrow>
   \<exists>dj hj dk hk cj ck.
     rounds p nodes nb j d0 = Inr (dj, hj) \<and> rounds p nodes nb k d0 = Inr (dk, hk) \<and>
     getitem2 dj u y = Inr cj \<and> getitem2 dk u y = Inr ck \<and> ck \<le> cj"
proof -
  assume init: "init_tables nodes edges = Inr (nb, d0)"
    and u: "u \<in> set nodes" and y: "y \<in> set nodes" and jk: "j \<le> k"
  note d = init_tables_InrD [OF init]
  let ?S = "set nodes"
  let ?t = "\<lambda>i. ptabs p nb i (dist0 nb, hop0 nb)"
  have r: "rounds p nodes nb i d0 = Inr (tab ?S (fst (?t i)), tab ?S (snd (?t i)))" for i
    unfolding d(3) by (rule rounds_tab [OF refl d(4)])
  have "getitem2 (tab ?S (fst (?t i))) u y = Inr (fst (?t i) u y)" for i
    using u y by (simp add: getitem2_tab)
  with r ptabs_mono [OF jk, of p nb "(dist0 nb, hop0 nb)" u y] show ?thesis by blast
qed

theorem cost_never_increases_witness:
  "\<exists>nb d0 dj hj dk hk.
     init_tables [''A'', ''B'', ''C''] [(''A'', ''B'', 1), (''B'', ''C'', 1), (''A'', ''C'', 4)]
       = Inr (nb, d0) \<and>
     rounds True [''A'', ''B'', ''C''] nb 0 d0 = Inr (dj, hj) \<and>
     rounds True [''A'', ''B'', ''C''] nb 1 d0 = Inr (dk, hk) \<and>
     getitem2 dj ''A'' ''C'' = Inr 4 \<and> getitem2 dk ''A'' ''C'' = Inr 2"
proof -
  let ?ns = "[''A'', ''B'', ''C'']"
  let ?es = "[(''A'', ''B'', 1::int), (''B'', ''C'', 1), (''A'', ''C'', 4)]"
  have "\<exists>t. init_tables ?ns ?es = Inr t"
    by (simp add: init_tables_tab endpoints_ok_def)
  then obtain nb d0 where init: "init_tables ?ns ?es = Inr (nb, d0)" by force
  from cost_never_increases [OF init, of "''A''" "''C''" 0 1 True]
  obtain dj hj dk hk cj ck where r:
    "rounds True ?ns nb 0 d0 = Inr (dj, hj)" "rounds True ?ns nb 1 d0 = Inr (dk, hk)"
    "getitem2 dj ''A'' ''C'' = Inr cj" "getitem2 dk ''A'' ''C'' = Inr ck" "ck \<le> cj"
    by auto
  have v: "and_then (init_tables ?ns ?es) (\<lambda>(nb, d0).
          and_then (rounds True ?ns nb 0 d0) (\<lambda>(dj, hj).
          and_then (rounds True ?ns nb 1 d0) (\<lambda>(dk, hk).
          and_then (getitem2 dj ''A'' ''C'') (\<lambda>cj.
          and_then (getitem2 dk ''A'' ''C'') (\<lambda>ck. Inr (cj, ck)))))) = Inr (4, 2)"
    by code_simp
  from v init r have "cj = 4" "ck = 2" by simp_all
  with init r show ?thesis by blast
qed

subsection \<open>Order of the nodes and of the links\<close>




subsection \<open>The value returned\<close>

text \<open>
  Counterexample to C7 as stated: two runs on one node with a link from the node to
  itself. With cost -52 and poisoned reverse the first round changes nothing
  (Converged, iteration 1); with cost -1 and no poisoned reverse every round lowers the
  cost by one and the loop stops on the bound (iteration 51). Both calls return the
  same value, so the output tells neither the iteration count nor which exit was taken.
\<close>

theorem output_hides_termination_state:
  "distance_vector [''A''] [(''A'', ''A'', - 52)] True =
   distance_vector [''A''] [(''A'', ''A'', - 1)] False \<and>
   and_then (simulate [''A''] [(''A'', ''A'', - 52)] True) (\<lambda>(tabs, n, oc). Inr (n, oc)) =
     Inr (1, Converged) \<and>
   and_then (simulate [''A''] [(''A'', ''A'', - 1)] False) (\<lambda>(tabs, n, oc). Inr (n, oc)) =
     Inr (51, AbortedOnIterationLimit)"
proof -
  have ok: "endpoints_ok (set [''A'']) [(''A'', ''A'', c)]" for c :: int
    by (simp add: endpoints_ok_def)
  have "and_then (simulate [''A''] [(''A'', ''A'', - 52)] True)
     (\<lambda>((dist, next_hop), n, oc).
        and_then (getitem2 dist ''A'' ''A'') (\<lambda>c.
        and_then (getitem2 next_hop ''A'' ''A'') (\<lambda>h. Inr (c, h, n, oc)))) =
     Inr (- 52, Some ''A'', 1, Converged)"
    by code_simp
  from single_node_output [OF this ok]
  have x: "simulate [''A''] [(''A'', ''A'', - 52)] True =
    Inr ((tab {''A''} (\<lambda>u d. - 52), tab {''A''} (\<lambda>u d. Some ''A'')), 1, Converged)" .
  have "and_then (simulate [''A''] [(''A'', ''A'', - 1)] False)
     (\<lambda>((dist, next_hop), n, oc).
        and_then (getitem2 dist ''A'' ''A'') (\<lambda>c.
        and_then (getitem2 next_hop ''A'' ''A'') (\<lambda>h. Inr (c, h, n, oc)))) =
     Inr (- 52, Some ''A'', 51, AbortedOnIterationLimit)"
    by code_simp
  from single_node_output [OF this ok]
  have y: "simulate [''A''] [(''A'', ''A'', - 1)] False =
    Inr ((tab {''A''} (\<lambda>u d. - 52), tab {''A''} (\<lambda>u d. Some ''A'')), 51,
         AbortedOnIterationLimit)" .
  show ?thesis by (simp add: distance_vector_simulate x y)
qed

text \<open>
  C7, amended: on either exit of the loop the value returned is the pair of final
  tables and nothing else: the dist and next_hop tables after the last round that was
  run. The iteration count and the exit taken stay inside the loop.
\<close>

theorem output_is_final_tables:
  "init_tables nodes edges = Inr (nb, d0) \<Longrightarrow>
   \<exists>tabs n oc. simulate nodes edges p = Inr (tabs, n, oc) \<and>
     distance_vector nodes edges p = Inr tabs \<and> rounds p nodes nb n d0 = Inr tabs"
proof -
  assume init: "init_tables nodes edges = Inr (nb, d0)"
  note d = init_tables_InrD [OF init]
  from dv_loop_total [OF refl d(4), of 51 0 p "dist0 nb" "hop0 nb"] d(3)
  obtain tabs n oc where res: "dv_loop p nodes nb 0 d0 = Inr (tabs, n, oc)" by auto
  have "loop_spec p nodes nb 0 d0 (dv_loop p nodes nb 0 d0)"
    by (rule dv_loop_spec) simp_all
  then obtain k t upd where k: "n = 0 + Suc k" "rounds p nodes nb k d0 = Inr t"
    "round p nodes nb t = Inr (fst tabs, snd tabs, upd)"
    unfolding loop_spec_def res sum.case prod.case by blast
  from rounds_Suc_back [OF k(2,3)] k(1) have "rounds p nodes nb n d0 = Inr tabs" by simp
  moreover have "simulate nodes edges p = Inr (tabs, n, oc)"
    using init res by (simp add: simulate_def)
  ultimately show ?thesis by (simp add: distance_vector_simulate)
qed

theorem output_is_final_tables_witness:
  "\<exists>nb d0 tabs.
     init_tables [''A'', ''B'', ''C''] [(''A'', ''B'', 1), (''B'', ''C'', 1), (''A'', ''C'', 4)]
       = Inr (nb, d0) \<and>
     simulate [''A'', ''B'', ''C''] [(''A'', ''B'', 1), (''B'', ''C'', 1), (''A'', ''C'', 4)] True
       = Inr (tabs, 2, Converged) \<and>
     distance_vector [''A'', ''B'', ''C''] [(''A'', ''B'', 1), (''B'', ''C'', 1), (''A'', ''C'', 4)] True
       = Inr tabs \<and>
     rounds True [''A'', ''B'', ''C''] nb 2 d0 = Inr tabs"
proof -
  let ?ns = "[''A'', ''B'', ''C'']"
  let ?es = "[(''A'', ''B'', 1::int), (''B'', ''C'', 1), (''A'', ''C'', 4)]"
  have "\<exists>t. init_tables ?ns ?es = Inr t"
    by (simp add: init_tables_tab endpoints_ok_def)
  then obtain nb d0 where init: "init_tables ?ns ?es = Inr (nb, d0)" by force
  from output_is_final_tables [OF init, of True] obtain tabs n oc where r:
    "simulate ?ns ?es True = Inr (tabs, n, oc)" "distance_vector ?ns ?es True = Inr tabs"
    "rounds True ?ns nb n d0 = Inr tabs" by blast
  have "and_then (simulate ?ns ?es True) (\<lambda>(tabs, n, oc). Inr (n, oc)) = Inr (2, Converged)"
    by code_simp
  with r(1) have "n = 2" "oc = Converged" by simp_all
  with init r show ?thesis by blast
qed

subsection \<open>Candidates from an advertised infinity\<close>

text \<open>
  Counterexample to C8 as stated: the candidate for an advertised infinity is
  \<open>INF + cost_uv\<close>, not the sentinel; with a link cost above the sentinel in the
  table, such a candidate is even stored as a route.
\<close>

theorem candidate_not_saturated:
  "via_v 1 INF_cost = INF_cost + 1 \<and> via_v 1 INF_cost \<noteq> INF_cost \<and>
   and_then (distance_vector [''A'', ''B'', ''C'']
               [(''A'', ''B'', 3000000000), (''A'', ''C'', 1)] False)
     (\<lambda>(dist, next_hop). and_then (getitem2 dist ''A'' ''B'')
        (\<lambda>c. and_then (getitem2 next_hop ''A'' ''B'') (\<lambda>h. Inr (c, h)))) =
   Inr (1000000001, Some ''C'')"
proof (intro conjI)
  show "via_v 1 INF_cost = INF_cost + 1" by (simp add: via_v_def)
  show "via_v 1 INF_cost \<noteq> INF_cost" by (simp add: via_v_def)
  show "and_then (distance_vector [''A'', ''B'', ''C'']
               [(''A'', ''B'', 3000000000), (''A'', ''C'', 1)] False)
     (\<lambda>(dist, next_hop). and_then (getitem2 dist ''A'' ''B'')
        (\<lambda>c. and_then (getitem2 next_hop ''A'' ''B'') (\<lambda>h. Inr (c, h)))) =
   Inr (1000000001, Some ''C'')"
    by code_simp
qed

text \<open>
  C8, amended: when the advertised cost is the infinity sentinel, the candidate is the
  sentinel plus the link cost, on unbounded integers (nothing wraps around); for a
  link cost that is not negative it is at least the sentinel, and it never replaces a
  table cost that is at most the sentinel.
\<close>

theorem infinite_candidate_never_improves:
  "getitem advertised dest = Inr INF_cost \<Longrightarrow> 0 \<le> cost_uv \<Longrightarrow>
   getitem2 old_dist u v = Inr old_uv \<Longrightarrow>
   getitem2 dist u dest = Inr cur \<Longrightarrow> cur \<le> INF_cost \<Longrightarrow>
   via_v cost_uv INF_cost = INF_cost + cost_uv \<and> INF_cost \<le> via_v cost_uv INF_cost \<and>
   relax old_dist u v cost_uv advertised dest (dist, next_hop, updated) =
     Inr (dist, next_hop, updated)"
  by (simp add: via_v_def relax_def getitem_def)

theorem infinite_candidate_never_improves_witness:
  "via_v 4 INF_cost = INF_cost + 4 \<and> INF_cost \<le> via_v 4 INF_cost \<and>
   relax [''A'' \<mapsto> [''C'' \<mapsto> 4]] ''A'' ''C'' 4 [''B'' \<mapsto> INF_cost] ''B''
     ([''A'' \<mapsto> [''B'' \<mapsto> 1, ''C'' \<mapsto> 4]], Map.empty, False) =
   Inr ([''A'' \<mapsto> [''B'' \<mapsto> 1, ''C'' \<mapsto> 4]], Map.empty, False)"
  using infinite_candidate_never_improves [of "[''B'' \<mapsto> INF_cost]" "''B''" 4
      "[''A'' \<mapsto> [''C'' \<mapsto> 4]]" "''A''" "''C''" 4
      "[''A'' \<mapsto> [''B'' \<mapsto> 1, ''C'' \<mapsto> 4]]" 1 Map.empty False]
  by (simp add: getitem2_def getitem_def INF_cost_def)

end
